theory Spec2Isabelle
  imports Main "HOL-Library.Word" "HOL-Library.Monad_Syntax"
begin

section \<open>Characters and C library functions\<close>

text \<open>
  A C string is modelled by the list of its bytes before the terminating NUL; the
  test \<^verbatim>\<open>*p == '\0'\<close> of the source is the test for the empty list.
\<close>

abbreviation nl :: char where "nl \<equiv> CHR 0x0A"
abbreviation tab :: char where "tab \<equiv> CHR 0x09"

text \<open>\<^verbatim>\<open>isspace\<close> of the C locale: space, \<^verbatim>\<open>\t \n \v \f \r\<close>.\<close>

definition isspace :: "char \<Rightarrow> bool" where
  "isspace c \<longleftrightarrow> c = CHR '' '' \<or> c = tab \<or> c = nl \<or> c = CHR 0x0B \<or> c = CHR 0x0C \<or> c = CHR 0x0D"

definition isdigit :: "char \<Rightarrow> bool" where
  "isdigit c \<longleftrightarrow> (48::nat) \<le> of_char c \<and> of_char c \<le> (57::nat)"

definition digit_char :: "nat \<Rightarrow> char" where
  "digit_char d = char_of (48 + d)"

text \<open>\<^verbatim>\<open>snprintf(buffer, size, "%d", value)\<close>: the decimal digits, most significant first,
  after a minus sign for a negative value, cut to \<open>size - 1\<close> bytes.\<close>

fun dec_digits :: "nat \<Rightarrow> string" where
  "dec_digits n = (if n < 10 then [digit_char n] else dec_digits (n div 10) @ [digit_char (n mod 10)])"

declare dec_digits.simps [simp del]

definition format_d :: "int \<Rightarrow> string" where
  "format_d i = (if i < 0 then CHR ''-'' # dec_digits (nat (- i)) else dec_digits (nat i))"

definition snprintf_d :: "nat \<Rightarrow> int \<Rightarrow> string" where
  "snprintf_d sz i = take (sz - 1) (format_d i)"

text \<open>The number that a text denotes for \<^verbatim>\<open>strtol\<close> in base 10: leading white space, an
  optional sign, then the longest run of decimal digits; anything after it is ignored, and no
  digits give 0.\<close>

fun atoi_digits :: "string \<Rightarrow> int \<Rightarrow> int" where
  "atoi_digits [] acc = acc"
| "atoi_digits (c # cs) acc =
     (if isdigit c then atoi_digits cs (acc * 10 + (of_char c - 48)) else acc)"

definition decimal_value :: "string \<Rightarrow> int" where
  "decimal_value s = (case dropWhile isspace s of
               [] \<Rightarrow> 0
             | c # cs \<Rightarrow> if c = CHR ''-'' then - atoi_digits cs 0
                        else if c = CHR ''+'' then atoi_digits cs 0
                        else atoi_digits (c # cs) 0)"

text \<open>\<^verbatim>\<open>atoi(s)\<close> is \<^verbatim>\<open>(int) strtol(s, NULL, 10)\<close>, as in glibc: \<^verbatim>\<open>strtol\<close> answers with the
  nearest \<^verbatim>\<open>long\<close> (64 bits) when the number is out of range, and the cast keeps the low 32
  bits. (The C standard leaves \<^verbatim>\<open>atoi\<close> undefined for a number that is not an \<^verbatim>\<open>int\<close>.)\<close>

definition strtol :: "string \<Rightarrow> int" where
  "strtol s = max (- (2 ^ 63)) (min (2 ^ 63 - 1) (decimal_value s))"

definition atoi :: "string \<Rightarrow> 32 word" where
  "atoi s = word_of_int (strtol s)"

section \<open>Node\<close>

datatype NodeType = Type_Null | Type_Scalar | Type_Sequence | Type_Map

text \<open>
  A node owns its children: the intrusive list \<^verbatim>\<open>first_child_ / last_child_ / next_sibling_\<close>
  is the list \<open>children\<close>, in link order. \<^verbatim>\<open>map_key_\<close> is a pointer to a side node that
  only this node refers to, or null. The fields keep the names of the source without the
  trailing underscore; \<^verbatim>\<open>type_\<close> and \<^verbatim>\<open>tag_\<close> are \<open>node_type\<close> and \<open>node_tag\<close>.
\<close>

datatype Node = Node (node_type: NodeType) (node_tag: "string option") (scalar_value: "string option")
  (children: "Node list") (map_key: "Node option")

text \<open>\<^verbatim>\<open>Node::Node(const char* tag = nullptr)\<close>\<close>

definition Node_new :: "string option \<Rightarrow> Node" where
  "Node_new tag = Node Type_Null tag None [] None"

text \<open>\<^verbatim>\<open>Node::AddChild\<close>: the child becomes the last element of the list.\<close>

definition AddChild :: "Node \<Rightarrow> Node \<Rightarrow> Node" where
  "AddChild parent child =
     Node (node_type parent) (node_tag parent) (scalar_value parent) (children parent @ [child]) (map_key parent)"

text \<open>\<^verbatim>\<open>Node::Node(const Node& other)\<close>: type, tag and scalar text are duplicated, every child is
  copied by the same constructor and appended in order, and \<^verbatim>\<open>map_key_\<close> is initialised to null.\<close>

primrec Node_copy :: "Node \<Rightarrow> Node" where
  "Node_copy (Node ty tg sv ch k) = Node ty tg sv (map Node_copy ch) None"

definition GetType :: "Node \<Rightarrow> NodeType" where "GetType n = node_type n"
definition IsScalar :: "Node \<Rightarrow> bool" where "IsScalar n \<longleftrightarrow> node_type n = Type_Scalar"
definition IsSequence :: "Node \<Rightarrow> bool" where "IsSequence n \<longleftrightarrow> node_type n = Type_Sequence"
definition IsMap :: "Node \<Rightarrow> bool" where "IsMap n \<longleftrightarrow> node_type n = Type_Map"
definition IsNull :: "Node \<Rightarrow> bool" where "IsNull n \<longleftrightarrow> node_type n = Type_Null"

definition as_string :: "Node \<Rightarrow> string" where
  "as_string n = (case scalar_value n of Some s \<Rightarrow> s | None \<Rightarrow> [])"

text \<open>The result of \<^verbatim>\<open>as_int\<close> is a C \<^verbatim>\<open>int\<close>, a 32-bit word read as signed.\<close>

definition as_int :: "Node \<Rightarrow> 32 word" where
  "as_int n = (case scalar_value n of Some s \<Rightarrow> atoi s | None \<Rightarrow> 0)"

definition as_bool :: "Node \<Rightarrow> bool" where
  "as_bool n = (case scalar_value n of
                  None \<Rightarrow> False
                | Some s \<Rightarrow> s = ''true'' \<or> s = ''yes'' \<or> s = ''1'')"

text \<open>\<^verbatim>\<open>Node::size\<close>: the loop over the child list counts the children without a key.\<close>

fun size_loop :: "Node list \<Rightarrow> nat \<Rightarrow> nat" where
  "size_loop [] count = count"
| "size_loop (child # rest) count =
     size_loop rest (if map_key child = None then count + 1 else count)"

definition Node_size :: "Node \<Rightarrow> nat" where
  "Node_size n = size_loop (children n) 0"

text \<open>\<^verbatim>\<open>Node::operator[](size_t index)\<close>: returns by value, so through the copy constructor.\<close>

fun index_loop :: "Node list \<Rightarrow> nat \<Rightarrow> nat \<Rightarrow> Node" where
  "index_loop [] current index = Node_new None"
| "index_loop (child # rest) current index =
     (if map_key child = None then
        (if current = index then Node_copy child else index_loop rest (current + 1) index)
      else index_loop rest current index)"

definition Node_index :: "Node \<Rightarrow> nat \<Rightarrow> Node" where
  "Node_index n index = index_loop (children n) 0 index"

text \<open>The test \<^verbatim>\<open>child->map_key_ && child->map_key_->scalar_value_ && strcmp(..., key) == 0\<close>
  shared by the keyed \<^verbatim>\<open>operator[]\<close> and \<^verbatim>\<open>HasKey\<close>.\<close>

definition key_matches :: "Node \<Rightarrow> string \<Rightarrow> bool" where
  "key_matches child key =
     (case map_key child of
        None \<Rightarrow> False
      | Some k \<Rightarrow> (case scalar_value k of None \<Rightarrow> False | Some s \<Rightarrow> s = key))"

fun lookup_loop :: "Node list \<Rightarrow> string \<Rightarrow> Node" where
  "lookup_loop [] key = Node_new None"
| "lookup_loop (child # rest) key =
     (if key_matches child key then Node_copy child else lookup_loop rest key)"

definition Node_lookup :: "Node \<Rightarrow> string \<Rightarrow> Node" where
  "Node_lookup n key = lookup_loop (children n) key"

fun HasKey_loop :: "Node list \<Rightarrow> string \<Rightarrow> bool" where
  "HasKey_loop [] key = False"
| "HasKey_loop (child # rest) key =
     (if key_matches child key then True else HasKey_loop rest key)"

definition HasKey :: "Node \<Rightarrow> string \<Rightarrow> bool" where
  "HasKey n key = HasKey_loop (children n) key"

text \<open>\<^verbatim>\<open>Node::Clear\<close> frees tag, scalar text and children and nulls \<^verbatim>\<open>map_key_\<close>; the type is left
  as it is. (It also nulls \<^verbatim>\<open>next_sibling_\<close>, which is already null on every node a caller can
  assign to: callers only ever hold roots and copies.)\<close>

definition Clear :: "Node \<Rightarrow> Node" where
  "Clear n = Node (node_type n) None None [] None"

definition push_back_node :: "Node \<Rightarrow> Node \<Rightarrow> Node" where
  "push_back_node n other = AddChild n (Node_copy other)"

definition push_back_str :: "Node \<Rightarrow> string \<Rightarrow> Node" where
  "push_back_str n v = AddChild n (Node Type_Scalar None (Some v) [] None)"

definition assign_str :: "Node \<Rightarrow> string \<Rightarrow> Node" where
  "assign_str n v = (let c = Clear n in Node Type_Scalar (node_tag c) (Some v) (children c) (map_key c))"

definition assign_int :: "Node \<Rightarrow> 32 word \<Rightarrow> Node" where
  "assign_int n v =
     (let c = Clear n; buffer = snprintf_d 32 (sint v)
      in Node Type_Scalar (node_tag c) (Some buffer) (children c) (map_key c))"

definition assign_bool :: "Node \<Rightarrow> bool \<Rightarrow> Node" where
  "assign_bool n v =
     (let c = Clear n
      in Node Type_Scalar (node_tag c) (Some (if v then ''true'' else ''false'')) (children c) (map_key c))"

section \<open>Parser\<close>

text \<open>
  The pointer \<^verbatim>\<open>state->current\<close> refers to a node of the tree under \<^verbatim>\<open>state->root\<close>, reached
  from the root through child links and \<^verbatim>\<open>map_key_\<close> links. It is modelled by the path of
  these links. Reading or writing through a path that leads nowhere, and an access to
  \<^verbatim>\<open>indent_stack\<close> outside its 64 slots, have no defined behaviour in C++; the model
  returns \<open>None\<close> there.
\<close>

datatype step = Child nat | Key

type_synonym path = "step list"

fun node_at :: "Node \<Rightarrow> path \<Rightarrow> Node option" where
  "node_at n [] = Some n"
| "node_at n (Child i # p) =
     (if i < length (children n) then node_at (children n ! i) p else None)"
| "node_at n (Key # p) = (case map_key n of None \<Rightarrow> None | Some k \<Rightarrow> node_at k p)"

fun update_at :: "Node \<Rightarrow> path \<Rightarrow> (Node \<Rightarrow> Node) \<Rightarrow> Node option" where
  "update_at n [] f = Some (f n)"
| "update_at n (Child i # p) f =
     (if i < length (children n)
      then map_option
             (\<lambda>c. Node (node_type n) (node_tag n) (scalar_value n) ((children n)[i := c]) (map_key n))
             (update_at (children n ! i) p f)
      else None)"
| "update_at n (Key # p) f =
     (case map_key n of
        None \<Rightarrow> None
      | Some k \<Rightarrow> map_option
                  (\<lambda>k'. Node (node_type n) (node_tag n) (scalar_value n) (children n) (Some k'))
                  (update_at k p f))"

text \<open>
  \<^verbatim>\<open>ParseState\<close>. The cursor (\<^verbatim>\<open>content\<close>, \<^verbatim>\<open>length\<close>, \<^verbatim>\<open>position\<close>) is passed separately as the
  unread rest of the content, \<^verbatim>\<open>content + position\<close> up to \<^verbatim>\<open>content + length\<close>. The fields
  \<^verbatim>\<open>line\<close>, \<^verbatim>\<open>column\<close>, \<^verbatim>\<open>current_key\<close> and \<^verbatim>\<open>in_sequence\<close> are written but never read, and are
  left out.
\<close>

record ParseState =
  indent_stack :: "int list"
  indent_top :: nat
  root :: Node
  current :: path

definition stack_read :: "int list \<Rightarrow> nat \<Rightarrow> int option" where
  "stack_read stack i = (if i < length stack then Some (stack ! i) else None)"

definition stack_write :: "int list \<Rightarrow> nat \<Rightarrow> int \<Rightarrow> int list option" where
  "stack_write stack i v = (if i < length stack then Some (stack[i := v]) else None)"

text \<open>
  A loop of the source that only moves a pointer forward over bytes, up to the first byte that
  fails a test or to the terminator, is written with \<open>takeWhile\<close> and \<open>dropWhile\<close>.
  \<^verbatim>\<open>SkipWhitespace\<close> moves \<^verbatim>\<open>position\<close> over white space, line breaks included.
\<close>

definition SkipWhitespace :: "string \<Rightarrow> string" where
  "SkipWhitespace input = dropWhile isspace input"

text \<open>\<^verbatim>\<open>ReadToEndOfLine\<close>: the buffer receives the bytes before the next line break, at most
  \<open>size - 1\<close> of them; a line break that follows directly is consumed. The result is the buffer
  and the rest of the content after \<^verbatim>\<open>position\<close>. (\<^verbatim>\<open>Load\<close> is the only caller, with size 4096.)\<close>

definition ReadToEndOfLine :: "nat \<Rightarrow> string \<Rightarrow> string \<times> string" where
  "ReadToEndOfLine sz input =
     (let buffer = take (sz - 1) (takeWhile (\<lambda>c. c \<noteq> nl) input);
          rest = drop (length buffer) input
      in (buffer, if rest \<noteq> [] \<and> hd rest = nl then tl rest else rest))"

text \<open>\<^verbatim>\<open>GetIndent\<close> reads from \<^verbatim>\<open>content + position\<close>: a space counts 1, a tab 4.\<close>

fun GetIndent :: "string \<Rightarrow> int" where
  "GetIndent [] = 0"
| "GetIndent (c # cs) =
     (if c = CHR '' '' then 1 + GetIndent cs
      else if c = tab then 4 + GetIndent cs
      else 0)"

definition TrimTrailingWhitespace :: "string \<Rightarrow> string" where
  "TrimTrailingWhitespace str = rev (dropWhile isspace (rev str))"

text \<open>One round of the loop that pops the indent stack in \<^verbatim>\<open>ProcessLine\<close>: \<^verbatim>\<open>current\<close> moves to
  its own key node if it has one, and from there to the last child if that child has a key.\<close>

definition pop_current :: "Node \<Rightarrow> path \<Rightarrow> path option" where
  "pop_current rt cur = do {
     n \<leftarrow> node_at rt cur;
     let cur1 = (if map_key n \<noteq> None then cur @ [Key] else cur);
     parent \<leftarrow> node_at rt cur1;
     Some (if children parent \<noteq> [] \<and> map_key (last (children parent)) \<noteq> None
           then cur1 @ [Child (length (children parent) - 1)]
           else cur1)
   }"

function pop_indent :: "int \<Rightarrow> ParseState \<Rightarrow> ParseState option" where
  "pop_indent indent state =
     (if indent_top state > 0 then
        (case stack_read (indent_stack state) (indent_top state) of
           None \<Rightarrow> None
         | Some top_indent \<Rightarrow>
             if indent \<le> top_indent then
               (case pop_current (root state) (current state) of
                  None \<Rightarrow> None
                | Some cur \<Rightarrow>
                    pop_indent indent (state\<lparr>indent_top := indent_top state - 1, current := cur\<rparr>))
             else Some state)
      else Some state)"
  by pat_completeness auto
termination
  by (relation "measure (\<lambda>(indent, state). indent_top state)") auto

declare pop_indent.simps [simp del]

text \<open>The three branches of \<^verbatim>\<open>ProcessLine\<close>: a new mapping, a sequence item, a simple
  \<^verbatim>\<open>key: value\<close>. Each appends a new node to the node \<^verbatim>\<open>current\<close> refers to; the first also
  pushes the indent and makes the new node \<^verbatim>\<open>current\<close>.\<close>

definition open_mapping :: "ParseState \<Rightarrow> string \<Rightarrow> int \<Rightarrow> ParseState option" where
  "open_mapping state key_buffer indent = do {
     parent \<leftarrow> node_at (root state) (current state);
     let new_node = Node Type_Map None (Some key_buffer) []
                      (Some (Node Type_Scalar None (Some key_buffer) [] None));
     rt \<leftarrow> update_at (root state) (current state) (\<lambda>c. AddChild c new_node);
     stack \<leftarrow> stack_write (indent_stack state) (indent_top state + 1) indent;
     Some (state\<lparr>indent_stack := stack, indent_top := indent_top state + 1, root := rt,
                 current := current state @ [Child (length (children parent))]\<rparr>)
   }"

definition add_sequence_item :: "ParseState \<Rightarrow> string \<Rightarrow> ParseState option" where
  "add_sequence_item state value_start = do {
     let value_buffer = TrimTrailingWhitespace (take 1023 value_start);
     let seq_node = Node Type_Scalar None (Some value_buffer) [] None;
     rt \<leftarrow> update_at (root state) (current state) (\<lambda>c. AddChild c seq_node);
     Some (state\<lparr>root := rt\<rparr>)
   }"

definition add_key_value :: "ParseState \<Rightarrow> string \<Rightarrow> string \<Rightarrow> ParseState option" where
  "add_key_value state key_buffer value_start = do {
     let value_buffer = TrimTrailingWhitespace (take 1023 value_start);
     let key_node = Node Type_Scalar None (Some key_buffer) [] None;
     let value_node = Node Type_Scalar None (Some value_buffer) [] (Some key_node);
     rt \<leftarrow> update_at (root state) (current state) (\<lambda>c. AddChild c value_node);
     Some (state\<lparr>root := rt\<rparr>)
   }"

text \<open>\<^verbatim>\<open>ProcessLine\<close>: \<open>p\<close> is the line from its first colon or white space on; the key is the
  text before it, cut to 1023 bytes; the test of the indent against the top of the stack is
  made only when the colon is followed by text that does not start a comment.\<close>

definition ProcessLine :: "ParseState \<Rightarrow> string \<Rightarrow> int \<Rightarrow> ParseState option" where
  "ProcessLine state line indent =
     (let p = dropWhile (\<lambda>c. c \<noteq> CHR '':'' \<and> \<not> isspace c) line;
          has_colon = (p \<noteq> [] \<and> hd p = CHR '':'');
          key_len = length line - length p;
          key_buffer = take (if key_len \<ge> 1024 then 1023 else key_len) line;
          value_start = (if has_colon then dropWhile isspace (tl p) else p)
      in do {
        st \<leftarrow> pop_indent indent state;
        opens \<leftarrow>
          (if has_colon then
             (if value_start = [] \<or> hd value_start = CHR ''#'' then Some True
              else map_option (\<lambda>top_indent. 0 \<le> indent_top st \<and> indent > top_indent)
                     (stack_read (indent_stack st) (indent_top st)))
           else Some False);
        if opens
        then open_mapping st key_buffer indent
        else if take 2 value_start = ''- ''
        then add_sequence_item st (drop 2 value_start)
        else add_key_value st key_buffer value_start
      })"

text \<open>The state that \<^verbatim>\<open>Load\<close> sets up. Slot 0 of the stack is \<open>-1\<close>; the other slots are not
  initialised in the source and are read only after they have been written.\<close>

definition initial_state :: ParseState where
  "initial_state =
     \<lparr>indent_stack = (- 1) # replicate 63 0, indent_top = 0, root = Node_new None, current = []\<rparr>"

text \<open>The loop of \<^verbatim>\<open>Load\<close>: read a line, skip white space, and either go on (nothing left, or
  the line is empty or starts with \<^verbatim>\<open>#\<close>) or process the line with the indent found at the new
  position.\<close>

function Load_loop :: "string \<Rightarrow> ParseState \<Rightarrow> ParseState option" where
  "Load_loop input state =
     (if input = [] then Some state
      else
        (let line_buffer = fst (ReadToEndOfLine 4096 input);
             rest = SkipWhitespace (snd (ReadToEndOfLine 4096 input))
         in if rest = [] \<or> line_buffer = [] \<or> hd line_buffer = CHR ''#''
            then Load_loop rest state
            else (case ProcessLine state line_buffer (GetIndent rest) of
                    None \<Rightarrow> None
                  | Some state' \<Rightarrow> Load_loop rest state')))"
  by pat_completeness auto
termination
proof -
  have skip: "length (SkipWhitespace xs) \<le> length xs" for xs
    by (simp add: SkipWhitespace_def length_dropWhile_le)
  have "length (snd (ReadToEndOfLine 4096 input)) < length input" if ne: "input \<noteq> []" for input
  proof -
    obtain c cs where inp: "input = c # cs" using ne by (cases input) auto
    show ?thesis unfolding inp by (cases "c = nl") (auto simp: ReadToEndOfLine_def Let_def)
  qed
  then have shorter:
    "length (SkipWhitespace (snd (ReadToEndOfLine 4096 input))) < length input"
    if "input \<noteq> []" for input
    using that skip [of "snd (ReadToEndOfLine 4096 input)"] by fastforce
  show ?thesis
    by (relation "measure (\<lambda>(input, state). length input)") (auto simp: shorter)
qed

declare Load_loop.simps [simp del]

text \<open>\<^verbatim>\<open>YAML::Exception\<close> carries a message. \<open>MemoryFault\<close> stands for behaviour that C++ leaves
  undefined. \<^verbatim>\<open>Load\<close> returns \<^verbatim>\<open>*state.root\<close> by value, through the copy constructor.\<close>

datatype error = Exception string | MemoryFault

definition Load :: "string \<Rightarrow> error + Node" where
  "Load content =
     (case Load_loop content initial_state of
        None \<Rightarrow> Inl MemoryFault
      | Some state \<Rightarrow> Inr (Node_copy (root state)))"

text \<open>
  \<^verbatim>\<open>LoadFile\<close> calls the C library; what the library answers is a parameter. \<open>fopen_result\<close>
  gives the bytes of the named file when \<^verbatim>\<open>fopen\<close> succeeds, \<open>ftell_result\<close> is the \<^verbatim>\<open>long\<close> that
  \<^verbatim>\<open>ftell\<close> answers at the end of the file (\<open>-1\<close> when it fails, as on a pipe), \<open>malloc_succeeds\<close>
  says whether the buffer is obtained, and \<open>fread_count\<close> is the number of bytes \<^verbatim>\<open>fread\<close>
  delivers; it delivers no more than it is asked for and no more than the file holds.
  \<^verbatim>\<open>long\<close> and \<^verbatim>\<open>size_t\<close> have 64 bits. The source does not test \<^verbatim>\<open>size\<close>: the buffer has
  \<^verbatim>\<open>size + 1\<close> bytes and \<^verbatim>\<open>fread\<close> is asked for \<^verbatim>\<open>size\<close> bytes, both converted to \<^verbatim>\<open>size_t\<close>, and
  the terminator is written at index \<^verbatim>\<open>read\<close>, which lies outside the buffer when the buffer
  has no more than \<^verbatim>\<open>read\<close> bytes. Otherwise \<^verbatim>\<open>Load\<close> takes the buffer as a C string, up to its
  first NUL byte.
\<close>

record file_io =
  fopen_result :: "string \<Rightarrow> string option"
  ftell_result :: "64 word"
  malloc_succeeds :: bool
  fread_count :: nat

definition LoadFile :: "file_io \<Rightarrow> string \<Rightarrow> error + Node" where
  "LoadFile io filename =
     (case fopen_result io filename of
        None \<Rightarrow> Inl (Exception ''Failed to open file'')
      | Some bytes \<Rightarrow>
          (let size = ftell_result io
           in if \<not> malloc_succeeds io then Inl (Exception ''Failed to allocate memory'')
              else
                (let capacity = unat (size + 1);
                     read = min (fread_count io) (min (unat size) (length bytes))
                 in if capacity \<le> read then Inl MemoryFault
                    else Load (takeWhile (\<lambda>c. c \<noteq> CHR 0x00) (take read bytes)))))"

text \<open>What \<^verbatim>\<open>Load\<close> keeps true of its state: the stack has its 64 slots, at most slot 1 is in
  use and holds a column that is not negative, and \<^verbatim>\<open>current\<close> refers to a node.\<close>

definition parse_inv :: "ParseState \<Rightarrow> bool" where
  "parse_inv st \<longleftrightarrow>
     length (indent_stack st) = 64 \<and> indent_top st \<le> 1 \<and>
     (indent_top st = 1 \<longrightarrow> 0 \<le> indent_stack st ! 1) \<and>
     node_at (root st) (current st) \<noteq> None"

text \<open>
  A line that \<^verbatim>\<open>Load\<close> is meant to skip, with its line break: after leading blanks it is
  empty, or it starts with \<^verbatim>\<open>#\<close> and has at most 4095 bytes before the line break, the
  capacity of the line buffer.
\<close>

definition skipped_line :: "string \<Rightarrow> bool" where
  "skipped_line l \<longleftrightarrow>
     (let text = dropWhile (\<lambda>c. isspace c \<and> c \<noteq> nl) l
      in text = [nl] \<or>
         (text \<noteq> [] \<and> hd text = CHR ''#'' \<and> last text = nl \<and> nl \<notin> set (butlast text) \<and>
          length text \<le> 4096))"

text \<open>
  Every node that carries a key is of a kind other than Null, here and below: the parser
  attaches keys to the Map and Scalar nodes it creates, and to nothing else.
\<close>

fun keys_typed :: "Node \<Rightarrow> bool" where
  "keys_typed (Node ty tg sv ch k) =
     ((\<forall>c \<in> set ch. (map_key c \<noteq> None \<longrightarrow> node_type c \<noteq> Type_Null) \<and> keys_typed c) \<and>
      (case k of None \<Rightarrow> True | Some kn \<Rightarrow> keys_typed kn))"

text \<open>A node without any key, on itself or below.\<close>

fun key_free :: "Node \<Rightarrow> bool" where
  "key_free (Node ty tg sv ch k) = (k = None \<and> (\<forall>c \<in> set ch. key_free c))"

text \<open>
  In a tree built by the parser a child without a key is a leaf, and \<^verbatim>\<open>current\<close> refers to the
  root, to a key node or to a child with a key: the only nodes without a key that the parser
  appends are the scalars of sequence items, and it never descends into them.
\<close>

fun leaf_items :: "Node \<Rightarrow> bool" where
  "leaf_items (Node ty tg sv ch k) =
     ((\<forall>c \<in> set ch. (map_key c = None \<longrightarrow> children c = []) \<and> leaf_items c) \<and>
      (case k of None \<Rightarrow> True | Some kn \<Rightarrow> leaf_items kn))"

definition at_keyed :: "Node \<Rightarrow> path \<Rightarrow> bool" where
  "at_keyed rt cur \<longleftrightarrow>
     (case node_at rt cur of
        None \<Rightarrow> False
      | Some t \<Rightarrow> cur = [] \<or> last cur = Key \<or> map_key t \<noteq> None)"

section \<open>Paths and the parser state\<close>

lemma node_at_append:
  "node_at n (p @ q) = Option.bind (node_at n p) (\<lambda>m. node_at m q)"
  by (induction n p rule: node_at.induct) (auto split: option.splits)

lemma update_at_valid:
  "node_at n p = Some m \<Longrightarrow> \<exists>n'. update_at n p f = Some n' \<and> node_at n' p = Some (f m)"
proof (induction n p rule: node_at.induct)
  case (1 n)
  then show ?case by simp
next
  case (2 n i p)
  from "2.prems" have i: "i < length (children n)" and sub: "node_at (children n ! i) p = Some m"
    by (auto split: if_splits)
  obtain c' where c': "update_at (children n ! i) p f = Some c'" "node_at c' p = Some (f m)"
    using "2.IH" [OF i sub] by blast
  show ?case using i c' by simp
next
  case (3 n p)
  from "3.prems" obtain k where k: "map_key n = Some k" and sub: "node_at k p = Some m"
    by (auto split: option.splits)
  obtain k' where k': "update_at k p f = Some k'" "node_at k' p = Some (f m)"
    using "3.IH" [OF k sub] by blast
  show ?case using k k' by simp
qed

lemma pop_current_valid:
  assumes "node_at rt cur = Some n"
  shows "\<exists>cur'. pop_current rt cur = Some cur' \<and> node_at rt cur' \<noteq> None"
proof -
  define cur1 where "cur1 = (if map_key n \<noteq> None then cur @ [Key] else cur)"
  have "\<exists>parent. node_at rt cur1 = Some parent"
    using assms by (auto simp: cur1_def node_at_append)
  then obtain parent where parent: "node_at rt cur1 = Some parent" by blast
  have last_valid: "node_at rt (cur1 @ [Child (length (children parent) - 1)]) \<noteq> None"
    if "children parent \<noteq> []"
    using that parent by (simp add: node_at_append)
  show ?thesis
    using assms parent last_valid
    by (auto simp: pop_current_def cur1_def Let_def)
qed

lemma pop_indent_zero:
  assumes "parse_inv st"
  shows "\<exists>cur'. pop_indent 0 st = Some (st\<lparr>indent_top := 0, current := cur'\<rparr>) \<and>
                node_at (root st) cur' \<noteq> None"
proof (cases "indent_top st = 0")
  case True
  then have "pop_indent 0 st = Some st" by (simp add: pop_indent.simps [of 0 st])
  moreover have "st\<lparr>indent_top := 0, current := current st\<rparr> = st" using True by simp
  ultimately show ?thesis using assms unfolding parse_inv_def by metis
next
  case False
  then have top: "indent_top st = 1" using assms by (simp add: parse_inv_def)
  obtain n where n: "node_at (root st) (current st) = Some n"
    using assms by (auto simp: parse_inv_def)
  obtain cur' where cur': "pop_current (root st) (current st) = Some cur'"
    "node_at (root st) cur' \<noteq> None"
    using pop_current_valid [OF n] by blast
  have "pop_indent 0 st = pop_indent 0 (st\<lparr>indent_top := 0, current := cur'\<rparr>)"
    using assms top cur' by (simp add: pop_indent.simps [of 0 st] stack_read_def parse_inv_def)
  also have "\<dots> = Some (st\<lparr>indent_top := 0, current := cur'\<rparr>)"
    by (simp add: pop_indent.simps [of 0 "st\<lparr>indent_top := 0, current := cur'\<rparr>"])
  finally show ?thesis using cur' by blast
qed

lemma add_child_at:
  assumes "node_at rt cur = Some parent"
  shows "\<exists>rt'. update_at rt cur (\<lambda>c. AddChild c new) = Some rt' \<and>
               node_at rt' cur = Some (AddChild parent new) \<and>
               node_at rt' (cur @ [Child (length (children parent))]) = Some new"
proof -
  obtain rt' where rt': "update_at rt cur (\<lambda>c. AddChild c new) = Some rt'"
    "node_at rt' cur = Some (AddChild parent new)"
    using update_at_valid [OF assms] by blast
  have "node_at rt' (cur @ [Child (length (children parent))]) = Some new"
    using rt' by (simp add: node_at_append AddChild_def)
  with rt' show ?thesis by blast
qed

lemma ProcessLine_inv:
  assumes "parse_inv st"
  shows "\<exists>st'. ProcessLine st line 0 = Some st' \<and> parse_inv st'"
proof -
  obtain cur where pop: "pop_indent 0 st = Some (st\<lparr>indent_top := 0, current := cur\<rparr>)"
    and cur: "node_at (root st) cur \<noteq> None"
    using pop_indent_zero [OF assms] by blast
  obtain parent where parent: "node_at (root st) cur = Some parent" using cur by auto
  have len: "length (indent_stack st) = 64" using assms by (simp add: parse_inv_def)
  let ?st = "st\<lparr>indent_top := 0, current := cur\<rparr>"
  have opn: "\<exists>st'. open_mapping ?st key 0 = Some st' \<and> parse_inv st'" for key
  proof -
    let ?new = "Node Type_Map None (Some key) [] (Some (Node Type_Scalar None (Some key) [] None))"
    obtain rt' where rt': "update_at (root st) cur (\<lambda>c. AddChild c ?new) = Some rt'"
      "node_at rt' (cur @ [Child (length (children parent))]) = Some ?new"
      using add_child_at [OF parent, of ?new] by blast
    have "open_mapping ?st key 0 =
          Some (?st\<lparr>indent_stack := (indent_stack st)[1 := 0], indent_top := 1, root := rt',
                     current := cur @ [Child (length (children parent))]\<rparr>)"
      using parent rt'(1) len by (simp add: open_mapping_def Let_def stack_write_def)
    moreover have "parse_inv (?st\<lparr>indent_stack := (indent_stack st)[1 := 0], indent_top := 1,
                     root := rt', current := cur @ [Child (length (children parent))]\<rparr>)"
      using rt'(2) len by (simp add: parse_inv_def)
    ultimately show ?thesis by blast
  qed
  have seq: "\<exists>st'. add_sequence_item ?st v = Some st' \<and> parse_inv st'" for v
  proof -
    let ?new = "Node Type_Scalar None (Some (TrimTrailingWhitespace (take 1023 v))) [] None"
    obtain rt' where rt': "update_at (root st) cur (\<lambda>c. AddChild c ?new) = Some rt'"
      "node_at rt' cur = Some (AddChild parent ?new)"
      using add_child_at [OF parent, of ?new] by blast
    have "add_sequence_item ?st v = Some (?st\<lparr>root := rt'\<rparr>)"
      using rt'(1) by (simp add: add_sequence_item_def Let_def)
    moreover have "parse_inv (?st\<lparr>root := rt'\<rparr>)"
      using rt'(2) len by (simp add: parse_inv_def)
    ultimately show ?thesis by blast
  qed
  have kv: "\<exists>st'. add_key_value ?st key v = Some st' \<and> parse_inv st'" for key v
  proof -
    let ?new = "Node Type_Scalar None (Some (TrimTrailingWhitespace (take 1023 v))) []
                  (Some (Node Type_Scalar None (Some key) [] None))"
    obtain rt' where rt': "update_at (root st) cur (\<lambda>c. AddChild c ?new) = Some rt'"
      "node_at rt' cur = Some (AddChild parent ?new)"
      using add_child_at [OF parent, of ?new] by blast
    have "add_key_value ?st key v = Some (?st\<lparr>root := rt'\<rparr>)"
      using rt'(1) by (simp add: add_key_value_def Let_def)
    moreover have "parse_inv (?st\<lparr>root := rt'\<rparr>)"
      using rt'(2) len by (simp add: parse_inv_def)
    ultimately show ?thesis by blast
  qed
  show ?thesis
    using opn seq kv len
    by (simp add: ProcessLine_def Let_def pop stack_read_def)
qed

lemma GetIndent_after_skip: "GetIndent (SkipWhitespace input) = 0"
proof (cases "dropWhile isspace input")
  case Nil
  show ?thesis unfolding SkipWhitespace_def Nil by simp
next
  case (Cons c cs)
  then have "\<not> isspace c" using hd_dropWhile [of isspace input] by auto
  then show ?thesis using Cons by (auto simp: SkipWhitespace_def isspace_def)
qed

lemma Load_loop_inv:
  "parse_inv st \<Longrightarrow> \<exists>st'. Load_loop input st = Some st' \<and> parse_inv st'"
proof (induction input st rule: Load_loop.induct)
  case (1 input state)
  show ?case
  proof (cases "input = []")
    case True
    then have "Load_loop input state = Some state" by (subst Load_loop.simps) simp
    then show ?thesis using "1.prems" by simp
  next
    case False
    define line_buffer where "line_buffer = fst (ReadToEndOfLine 4096 input)"
    define rest where "rest = SkipWhitespace (snd (ReadToEndOfLine 4096 input))"
    show ?thesis
    proof (cases "rest = [] \<or> line_buffer = [] \<or> hd line_buffer = CHR ''#''")
      case True
      have "Load_loop input state = Load_loop rest state"
        using False True by (simp add: Load_loop.simps [of input state] line_buffer_def rest_def)
      then show ?thesis
        using "1.IH"(1) [OF False line_buffer_def rest_def True "1.prems"] by simp
    next
      case skip: False
      have ind: "GetIndent rest = 0" by (simp add: rest_def GetIndent_after_skip)
      obtain st' where st': "ProcessLine state line_buffer 0 = Some st'" "parse_inv st'"
        using ProcessLine_inv [OF "1.prems"] by blast
      have "Load_loop input state = Load_loop rest st'"
        using False skip st' ind
        by (simp add: Load_loop.simps [of input state] line_buffer_def [symmetric] rest_def [symmetric])
      then show ?thesis
        using "1.IH"(2) [OF False line_buffer_def rest_def skip _ st'(2)] st'(1) ind by simp
    qed
  qed
qed

lemma parse_inv_initial: "parse_inv initial_state"
  by (simp add: parse_inv_def initial_state_def)

lemma Load_total: "\<exists>st. Load_loop content initial_state = Some st \<and> Load content = Inr (Node_copy (root st))"
  using Load_loop_inv [OF parse_inv_initial, of content] by (auto simp: Load_def)


section \<open>Lines that are skipped\<close>

lemma Load_loop_step:
  "input \<noteq> [] \<Longrightarrow> ReadToEndOfLine 4096 input = (b, r) \<Longrightarrow>
   Load_loop input st =
     (if SkipWhitespace r = [] \<or> b = [] \<or> hd b = CHR ''#'' then Load_loop (SkipWhitespace r) st
      else (case ProcessLine st b 0 of
              None \<Rightarrow> None
            | Some st' \<Rightarrow> Load_loop (SkipWhitespace r) st'))"
  by (subst Load_loop.simps) (simp add: GetIndent_after_skip)

lemma read_line_prefix:
  assumes ne: "P \<noteq> []" and last: "last P = nl"
  shows "\<exists>b Q. (\<forall>X. ReadToEndOfLine 4096 (P @ X) = (b, Q @ X)) \<and> length Q < length P \<and>
               (Q \<noteq> [] \<longrightarrow> last Q = nl)"
proof -
  have mem: "nl \<in> set P" using ne last by (metis last_in_set)
  define ln where "ln = takeWhile (\<lambda>c. c \<noteq> nl) P"
  define b where "b = take 4095 ln"
  define D where "D = drop (length b) P"
  define Q where "Q = (if hd D = nl then tl D else D)"
  have tw: "takeWhile (\<lambda>c. c \<noteq> nl) (P @ X) = ln" for X
    using mem by (simp add: ln_def)
  have "dropWhile (\<lambda>c. c \<noteq> nl) P \<noteq> []" using mem by simp
  moreover have "length P = length ln + length (dropWhile (\<lambda>c. c \<noteq> nl) P)"
    unfolding ln_def by (metis length_append takeWhile_dropWhile_id)
  ultimately have ln_lt: "length ln < length P" by simp
  have b_lt: "length b < length P" using ln_lt by (simp add: b_def)
  have D_ne: "D \<noteq> []" using b_lt by (simp add: D_def)
  have D_last: "last D = nl" using b_lt last by (simp add: D_def last_drop)
  have dr: "drop (length b) (P @ X) = D @ X" for X using b_lt by (simp add: D_def)
  have read: "ReadToEndOfLine 4096 (P @ X) = (b, Q @ X)" for X
  proof -
    have "take (4096 - 1) ln = b" by (simp add: b_def)
    then have "ReadToEndOfLine 4096 (P @ X) =
        (b, if drop (length b) (P @ X) \<noteq> [] \<and> hd (drop (length b) (P @ X)) = nl
            then tl (drop (length b) (P @ X)) else drop (length b) (P @ X))"
      unfolding ReadToEndOfLine_def Let_def tw by (simp only:)
    then show ?thesis unfolding dr using D_ne by (cases D) (auto simp: Q_def)
  qed
  have b_empty: "hd D = nl" if "b = []"
  proof -
    from that have "ln = []" by (auto simp: b_def)
    then have "hd P = nl" using ne unfolding ln_def by (cases P) (auto split: if_splits)
    then show ?thesis using that by (simp add: D_def)
  qed
  have Q_lt: "length Q < length P"
  proof (cases "hd D = nl")
    case True
    then have "length Q < length D" using D_ne by (simp add: Q_def)
    then show ?thesis by (simp add: D_def)
  next
    case False
    then have "b \<noteq> []" using b_empty by blast
    then have "0 < length b" by simp
    moreover have "length Q = length P - length b" using False by (simp add: Q_def D_def)
    ultimately show ?thesis using b_lt by linarith
  qed
  have Q_last: "last Q = nl" if "Q \<noteq> []"
    using that D_last D_ne by (cases D) (auto simp: Q_def split: if_splits)
  show ?thesis using read Q_lt Q_last by blast
qed

lemma Load_loop_comment:
  assumes body: "nl \<notin> set body" "length body \<le> 4094" and S: "SkipWhitespace S \<noteq> []"
  shows "Load_loop (CHR ''#'' # body @ nl # S) st = Load_loop (SkipWhitespace S) st"
proof -
  have tw: "takeWhile (\<lambda>c. c \<noteq> nl) (CHR ''#'' # body @ nl # S) = CHR ''#'' # body"
    using body(1) by (induction body) auto
  have "ReadToEndOfLine 4096 (CHR ''#'' # body @ nl # S) = (CHR ''#'' # body, S)"
    using body(2) unfolding ReadToEndOfLine_def Let_def tw by simp
  from Load_loop_step [OF _ this] show ?thesis by simp
qed

lemma skipped_line_cases:
  assumes "skipped_line L"
  obtains (is_blank) "list_all isspace L"
  | (is_comment) ws body where "L = ws @ CHR ''#'' # body @ [nl]" "list_all isspace ws"
      "nl \<notin> set body" "length body \<le> 4094"
proof -
  define ws where "ws = takeWhile (\<lambda>c. isspace c \<and> c \<noteq> nl) L"
  define tx where "tx = dropWhile (\<lambda>c. isspace c \<and> c \<noteq> nl) L"
  have L: "L = ws @ tx" by (simp add: ws_def tx_def)
  have ws: "list_all isspace ws"
    unfolding ws_def list_all_iff using set_takeWhileD by fastforce
  from assms consider "tx = [nl]"
    | "tx \<noteq> []" "hd tx = CHR ''#''" "last tx = nl" "nl \<notin> set (butlast tx)" "length tx \<le> 4096"
    unfolding skipped_line_def Let_def tx_def [symmetric] by blast
  then show thesis
  proof cases
    case 1
    then have "list_all isspace L" using ws L by (simp add: isspace_def)
    then show ?thesis by (rule is_blank)
  next
    case 2
    obtain t where t: "tx = CHR ''#'' # t" using 2(1,2) by (cases tx) auto
    have "t \<noteq> []" using 2(3) t by auto
    then have t2: "t = butlast t @ [nl]" using 2(3) t by (metis append_butlast_last_id last_ConsR)
    have "nl \<notin> set (butlast t)" using 2(4) t \<open>t \<noteq> []\<close> by auto
    moreover have "length (butlast t) \<le> 4094" using 2(5) t by simp
    moreover have "L = ws @ CHR ''#'' # butlast t @ [nl]" using L t t2 by simp
    ultimately show ?thesis using ws is_comment by blast
  qed
qed

lemma skip_all_space: "list_all isspace Q \<Longrightarrow> SkipWhitespace (Q @ X) = SkipWhitespace X"
  by (simp add: SkipWhitespace_def dropWhile_append list_all_iff)

lemma skip_some_text:
  "\<not> list_all isspace Q \<Longrightarrow> SkipWhitespace (Q @ X) = dropWhile isspace Q @ X"
  by (auto simp: SkipWhitespace_def dropWhile_append list_all_iff)

lemma Load_loop_skipped_line:
  assumes L: "skipped_line L" and S: "\<not> list_all isspace S"
  shows "P \<noteq> [] \<Longrightarrow> last P = nl \<Longrightarrow> Load_loop (P @ L @ S) st = Load_loop (P @ S) st"
proof (induction "length P" arbitrary: P st rule: less_induct)
  case less
  obtain b Q where read: "\<And>X. ReadToEndOfLine 4096 (P @ X) = (b, Q @ X)"
    and Q_lt: "length Q < length P" and Q_last: "Q \<noteq> [] \<Longrightarrow> last Q = nl"
    using read_line_prefix [OF less.prems] by blast
  have S': "SkipWhitespace S \<noteq> []" using S by (simp add: SkipWhitespace_def list_all_iff)
  have stepL: "Load_loop (P @ L @ S) st =
     (if SkipWhitespace (Q @ L @ S) = [] \<or> b = [] \<or> hd b = CHR ''#''
      then Load_loop (SkipWhitespace (Q @ L @ S)) st
      else (case ProcessLine st b 0 of
              None \<Rightarrow> None
            | Some st' \<Rightarrow> Load_loop (SkipWhitespace (Q @ L @ S)) st'))"
    using less.prems(1) by (intro Load_loop_step read) simp
  have stepS: "Load_loop (P @ S) st =
     (if SkipWhitespace (Q @ S) = [] \<or> b = [] \<or> hd b = CHR ''#''
      then Load_loop (SkipWhitespace (Q @ S)) st
      else (case ProcessLine st b 0 of
              None \<Rightarrow> None
            | Some st' \<Rightarrow> Load_loop (SkipWhitespace (Q @ S)) st'))"
    using less.prems(1) by (intro Load_loop_step read) simp
  have same: "SkipWhitespace (Q @ L @ S) \<noteq> [] \<and> SkipWhitespace (Q @ S) \<noteq> [] \<and>
              (\<forall>st'. Load_loop (SkipWhitespace (Q @ L @ S)) st' = Load_loop (SkipWhitespace (Q @ S)) st')"
  proof (cases "list_all isspace Q")
    case False
    define Q' where "Q' = dropWhile isspace Q"
    have Q'_ne: "Q' \<noteq> []" using False by (simp add: Q'_def list_all_iff)
    have Q_ne: "Q \<noteq> []" using False by auto
    have "\<exists>pre. Q = pre @ Q'" unfolding Q'_def by (metis takeWhile_dropWhile_id)
    then have Q'_last: "last Q' = nl" using Q_last [OF Q_ne] Q'_ne by auto
    have Q'_lt: "length Q' < length P"
      using Q_lt length_dropWhile_le [of isspace Q] by (simp add: Q'_def)
    have "Load_loop (Q' @ L @ S) st' = Load_loop (Q' @ S) st'" for st'
      using less.hyps [OF Q'_lt Q'_ne Q'_last] .
    then show ?thesis
      using Q'_ne by (simp add: skip_some_text [OF False] Q'_def [symmetric])
  next
    case True
    have rS: "SkipWhitespace (Q @ S) = SkipWhitespace S" by (rule skip_all_space [OF True])
    have rL: "SkipWhitespace (Q @ L @ S) = SkipWhitespace (L @ S)" by (rule skip_all_space [OF True])
    from L show ?thesis
    proof (cases rule: skipped_line_cases)
      case is_blank
      then show ?thesis using S' by (simp add: rS rL skip_all_space)
    next
      case (is_comment ws body)
      have "SkipWhitespace (L @ S) = SkipWhitespace (CHR ''#'' # body @ nl # S)"
        using is_comment(1,2) skip_all_space [of ws "CHR ''#'' # body @ nl # S"] by simp
      also have "\<dots> = CHR ''#'' # body @ nl # S" by (simp add: SkipWhitespace_def isspace_def)
      finally have eq: "SkipWhitespace (L @ S) = CHR ''#'' # body @ nl # S" .
      show ?thesis
        using S' Load_loop_comment [OF is_comment(3,4) S'] by (simp add: rS rL eq)
    qed
  qed
  show ?case unfolding stepL stepS using same by (auto split: option.splits)
qed

section \<open>Traversals of the child list\<close>

lemma size_loop_filter:
  "size_loop ch count = count + length (filter (\<lambda>c. map_key c = None) ch)"
  by (induction ch arbitrary: count) auto

lemma index_loop_filter:
  "cur \<le> index \<Longrightarrow>
   index_loop ch cur index =
     (if index - cur < length (filter (\<lambda>c. map_key c = None) ch)
      then Node_copy (filter (\<lambda>c. map_key c = None) ch ! (index - cur))
      else Node_new None)"
proof (induction ch arbitrary: cur)
  case Nil
  then show ?case by simp
next
  case (Cons child rest)
  show ?case
  proof (cases "map_key child = None")
    case keyed: False
    have "index_loop (child # rest) cur index = index_loop rest cur index"
      using keyed by (simp del: not_None_eq)
    moreover have "filter (\<lambda>c. map_key c = None) (child # rest) = filter (\<lambda>c. map_key c = None) rest"
      using keyed by (simp del: not_None_eq)
    ultimately show ?thesis using Cons.IH [OF Cons.prems] by (simp only:)
  next
    case unkeyed: True
    show ?thesis
    proof (cases "cur = index")
      case True
      then show ?thesis using unkeyed by simp
    next
      case False
      then have lt: "cur + 1 \<le> index" using Cons.prems by simp
      have "index - cur = Suc (index - (cur + 1))" using lt by simp
      then show ?thesis using unkeyed False Cons.IH [OF lt] by simp
    qed
  qed
qed

section \<open>Decimal text of an int\<close>

lemma of_char_digit_char: "d < 10 \<Longrightarrow> of_char (digit_char d) = (48 + d :: nat)"
  by (simp add: digit_char_def)

lemma of_char_digit_char_int: "d < 10 \<Longrightarrow> of_char (digit_char d) = (48 + int d)"
proof -
  assume d: "d < 10"
  have "(of_char (digit_char d) :: int) = int (of_char (digit_char d))"
    by (simp only: of_nat_of_char)
  then show ?thesis by (simp add: of_char_digit_char [OF d])
qed

lemma isdigit_digit_char: "d < 10 \<Longrightarrow> isdigit (digit_char d)"
  by (simp add: isdigit_def of_char_digit_char)

lemma atoi_digits_dec_digits:
  "atoi_digits (dec_digits n @ cs) acc = atoi_digits cs (acc * 10 ^ length (dec_digits n) + int n)"
proof (induction n arbitrary: cs acc rule: dec_digits.induct)
  case (1 n)
  show ?case
  proof (cases "n < 10")
    case True
    then show ?thesis
      by (simp add: dec_digits.simps [of n] isdigit_digit_char of_char_digit_char_int)
  next
    case False
    have d: "n mod 10 < 10" by simp
    have "atoi_digits (dec_digits n @ cs) acc =
          atoi_digits (dec_digits (n div 10) @ (digit_char (n mod 10) # cs)) acc"
      using False by (simp add: dec_digits.simps [of n])
    also have "\<dots> = atoi_digits (digit_char (n mod 10) # cs)
                       (acc * 10 ^ length (dec_digits (n div 10)) + int (n div 10))"
      using "1.IH" [OF False] by simp
    also have "\<dots> = atoi_digits cs
        ((acc * 10 ^ length (dec_digits (n div 10)) + int (n div 10)) * 10 + int (n mod 10))"
      by (simp add: isdigit_digit_char [OF d] of_char_digit_char_int [OF d])
    also have "(acc * 10 ^ length (dec_digits (n div 10)) + int (n div 10)) * 10 + int (n mod 10)
               = acc * 10 ^ length (dec_digits n) + int n"
    proof -
      have "length (dec_digits n) = Suc (length (dec_digits (n div 10)))"
        using False by (simp add: dec_digits.simps [of n])
      moreover have "int (n div 10) * 10 + int (n mod 10) = int n"
        by (simp add: zdiv_int zmod_int)
      ultimately show ?thesis by (simp add: algebra_simps)
    qed
    finally show ?thesis .
  qed
qed

lemma dec_digits_head:
  "\<exists>d ds. dec_digits n = d # ds \<and> isdigit d"
proof (induction n rule: dec_digits.induct)
  case (1 n)
  show ?case
  proof (cases "n < 10")
    case True
    then show ?thesis by (simp add: dec_digits.simps [of n] isdigit_digit_char)
  next
    case False
    then obtain d ds where "dec_digits (n div 10) = d # ds" "isdigit d" using "1.IH" by blast
    then show ?thesis using False by (simp add: dec_digits.simps [of n])
  qed
qed

lemma length_dec_digits:
  "n < 10 ^ k \<Longrightarrow> 0 < k \<Longrightarrow> length (dec_digits n) \<le> k"
proof (induction n arbitrary: k rule: dec_digits.induct)
  case (1 n)
  show ?case
  proof (cases "n < 10")
    case True
    then show ?thesis using "1.prems" by (simp add: dec_digits.simps [of n])
  next
    case False
    obtain j where k: "k = Suc j" using "1.prems" by (cases k) auto
    have "j \<noteq> 0" using False "1.prems" k by (cases j) auto
    moreover have "n div 10 < 10 ^ j" using "1.prems" k by (simp add: less_mult_imp_div_less)
    ultimately have "length (dec_digits (n div 10)) \<le> j" using "1.IH" [OF False] by simp
    then show ?thesis using False k by (simp add: dec_digits.simps [of n])
  qed
qed

lemma isdigit_not_sign: "isdigit d \<Longrightarrow> \<not> isspace d \<and> d \<noteq> CHR ''-'' \<and> d \<noteq> CHR ''+''"
  by (auto simp: isdigit_def isspace_def)

lemma decimal_value_format_d: "decimal_value (format_d i) = i"
proof (cases "i < 0")
  case True
  have "atoi_digits (dec_digits (nat (- i)) @ []) 0 = int (nat (- i))"
    by (simp only: atoi_digits_dec_digits) simp
  then show ?thesis using True by (simp add: decimal_value_def format_d_def isspace_def)
next
  case False
  obtain d ds where dd: "dec_digits (nat i) = d # ds" "isdigit d"
    using dec_digits_head by blast
  have "atoi_digits (dec_digits (nat i) @ []) 0 = int (nat i)"
    by (simp only: atoi_digits_dec_digits) simp
  then have "atoi_digits (d # ds) 0 = i" using False dd by simp
  then show ?thesis
    using False dd isdigit_not_sign [OF dd(2)] by (simp add: decimal_value_def format_d_def)
qed

lemma snprintf_d_int: "- (2 ^ 31) \<le> i \<Longrightarrow> i < 2 ^ 31 \<Longrightarrow> snprintf_d 32 i = format_d i"
proof -
  assume lo: "- (2 ^ 31) \<le> i" and hi: "i < 2 ^ 31"
  have "nat \<bar>i\<bar> < 10 ^ 10" using lo hi by simp
  then have "length (dec_digits (nat \<bar>i\<bar>)) \<le> 10" by (rule length_dec_digits) simp
  then have "length (format_d i) \<le> 31" by (auto simp: format_d_def abs_if)
  then show ?thesis by (simp add: snprintf_d_def)
qed

section \<open>Copies carry no keys\<close>

lemma node_at_Node_copy:
  "node_at (Node_copy n) p = Some m \<Longrightarrow> map_key m = None"
proof (induction p arbitrary: n)
  case Nil
  then show ?case by (cases n) auto
next
  case (Cons s p)
  obtain ty tg sv ch k where n: "n = Node ty tg sv ch k" by (cases n)
  show ?case
  proof (cases s)
    case (Child i)
    with Cons.prems n have "i < length ch" and "node_at (Node_copy (ch ! i)) p = Some m"
      by (auto split: if_splits)
    then show ?thesis using Cons.IH by blast
  next
    case Key
    with Cons.prems n show ?thesis by simp
  qed
qed

lemma keyless_children:
  assumes "\<forall>c \<in> set ch. map_key c = None"
  shows "\<not> HasKey_loop ch key" and "lookup_loop ch key = Node_new None"
    and "size_loop ch count = count + length ch"
  using assms by (induction ch arbitrary: count) (auto simp: key_matches_def)

lemma keyless_children_copy: "\<forall>c \<in> set (children (Node_copy n)). map_key c = None"
proof
  fix c assume "c \<in> set (children (Node_copy n))"
  then obtain i where "i < length (children (Node_copy n))" "children (Node_copy n) ! i = c"
    by (auto simp: in_set_conv_nth)
  then have "node_at (Node_copy n) [Child i] = Some c" by simp
  then show "map_key c = None" by (rule node_at_Node_copy)
qed

section \<open>Keyed lookup\<close>

lemma lookup_loop_found:
  "HasKey_loop ch key \<Longrightarrow> \<exists>c \<in> set ch. map_key c \<noteq> None \<and> lookup_loop ch key = Node_copy c"
  by (induction ch) (auto simp: key_matches_def split: if_splits option.splits)

lemma lookup_loop_missing: "\<not> HasKey_loop ch key \<Longrightarrow> lookup_loop ch key = Node_new None"
  by (induction ch) (auto split: if_splits)

lemma HasKey_loop_iff:
  "HasKey_loop ch key \<longleftrightarrow>
     (\<exists>c \<in> set ch. \<exists>k. map_key c = Some k \<and> scalar_value k = Some key)"
  by (induction ch) (auto simp: key_matches_def split: option.splits)

lemma node_type_Node_copy: "node_type (Node_copy n) = node_type n"
  by (cases n) simp

lemma scalar_value_Node_copy: "scalar_value (Node_copy n) = scalar_value n"
  by (cases n) simp

lemma node_tag_Node_copy: "node_tag (Node_copy n) = node_tag n"
  by (cases n) simp

lemma children_Node_copy: "children (Node_copy n) = map Node_copy (children n)"
  by (cases n) simp

lemma map_key_Node_copy: "map_key (Node_copy n) = None"
  by (cases n) simp

lemma key_free_Node_copy: "key_free (Node_copy n)"
  by (induction n) auto

lemma Node_copy_key_free: "key_free n \<Longrightarrow> Node_copy n = n"
  by (induction n) (auto intro: map_idI)

lemma key_free_no_key: "key_free n \<Longrightarrow> map_key n = None"
  by (cases n) simp

lemma key_free_children: "key_free n \<Longrightarrow> \<forall>c \<in> set (children n). key_free c"
  by (cases n) simp

lemma HasKey_lookup_typed:
  assumes "\<forall>c \<in> set (children n). map_key c \<noteq> None \<longrightarrow> node_type c \<noteq> Type_Null"
  shows "HasKey n key \<longleftrightarrow> \<not> IsNull (Node_lookup n key)"
proof (cases "HasKey_loop (children n) key")
  case True
  then obtain c where "c \<in> set (children n)" "map_key c \<noteq> None"
    "lookup_loop (children n) key = Node_copy c"
    using lookup_loop_found by blast
  then show ?thesis
    using True assms by (simp add: HasKey_def Node_lookup_def IsNull_def node_type_Node_copy)
next
  case False
  then show ?thesis
    using lookup_loop_missing [OF False]
    by (simp add: HasKey_def Node_lookup_def IsNull_def Node_new_def)
qed

lemma keys_typed_node_at:
  "keys_typed n \<Longrightarrow> node_at n p = Some m \<Longrightarrow> keys_typed m"
proof (induction n p rule: node_at.induct)
  case (1 n)
  then show ?case by simp
next
  case (2 n i p)
  then show ?case by (cases n) (auto split: if_splits)
next
  case (3 n p)
  then show ?case by (cases n) (auto split: option.splits)
qed

lemma keys_typed_children:
  "keys_typed n \<Longrightarrow> \<forall>c \<in> set (children n). map_key c \<noteq> None \<longrightarrow> node_type c \<noteq> Type_Null"
  by (cases n) auto

lemma keys_typed_update:
  assumes new: "keys_typed new" "map_key new \<noteq> None \<longrightarrow> node_type new \<noteq> Type_Null"
  shows "keys_typed n \<Longrightarrow> update_at n p (\<lambda>c. AddChild c new) = Some n' \<Longrightarrow>
         keys_typed n' \<and> node_type n' = node_type n \<and> (map_key n' = None \<longleftrightarrow> map_key n = None)"
proof (induction n p "\<lambda>c. AddChild c new" arbitrary: n' rule: update_at.induct)
  case (1 n)
  then show ?case using new by (cases n) (auto simp: AddChild_def)
next
  case (2 n i p)
  obtain ty tg sv ch k where n: "n = Node ty tg sv ch k" by (cases n)
  from "2.prems"(2) n obtain c' where i: "i < length ch"
    and c': "update_at (ch ! i) p (\<lambda>c. AddChild c new) = Some c'"
    and n': "n' = Node ty tg sv (ch[i := c']) k"
    by (auto split: if_splits)
  have old: "keys_typed (ch ! i)" using "2.prems"(1) n i by auto
  have ih: "keys_typed c' \<and> node_type c' = node_type (ch ! i) \<and>
            (map_key c' = None \<longleftrightarrow> map_key (ch ! i) = None)"
    using "2.hyps" [of c'] i n old c' by simp
  have "(map_key c \<noteq> None \<longrightarrow> node_type c \<noteq> Type_Null) \<and> keys_typed c"
    if "c \<in> set (ch[i := c'])" for c
  proof (cases "c = c'")
    case True
    have "map_key (ch ! i) \<noteq> None \<longrightarrow> node_type (ch ! i) \<noteq> Type_Null"
      using "2.prems"(1) n i by auto
    then show ?thesis using True ih by auto
  next
    case False
    then have "c \<in> set ch" using that set_update_subset_insert [of ch i c'] by auto
    then show ?thesis using "2.prems"(1) n by auto
  qed
  then show ?case using "2.prems"(1) n n' by auto
next
  case (3 n p)
  obtain ty tg sv ch k where n: "n = Node ty tg sv ch k" by (cases n)
  from "3.prems"(2) n obtain kn kn' where k: "k = Some kn"
    and kn': "update_at kn p (\<lambda>c. AddChild c new) = Some kn'"
    and n': "n' = Node ty tg sv ch (Some kn')"
    by (auto split: option.splits)
  have "keys_typed kn'" using "3.hyps" [of kn kn'] "3.prems"(1) n k kn' by simp
  then show ?case using "3.prems"(1) n n' k by auto
qed


lemma pop_indent_root: "pop_indent indent st = Some st' \<Longrightarrow> root st' = root st"
proof (induction indent st rule: pop_indent.induct)
  case (1 indent state)
  show ?case
  proof (cases "indent_top state > 0")
    case False
    then show ?thesis using "1.prems" by (simp add: pop_indent.simps [of indent state])
  next
    case True
    then obtain top_indent where top: "stack_read (indent_stack state) (indent_top state) = Some top_indent"
      using "1.prems" by (auto simp: pop_indent.simps [of indent state] split: option.splits)
    show ?thesis
    proof (cases "indent \<le> top_indent")
      case False
      then show ?thesis using "1.prems" True top by (simp add: pop_indent.simps [of indent state])
    next
      case le: True
      then obtain cur where cur: "pop_current (root state) (current state) = Some cur"
        using "1.prems" True top
        by (auto simp: pop_indent.simps [of indent state] split: option.splits)
      have "pop_indent indent (state\<lparr>indent_top := indent_top state - 1, current := cur\<rparr>) = Some st'"
        using "1.prems" True top le cur by (simp add: pop_indent.simps [of indent state])
      from "1.IH" [OF True top le cur this] show ?thesis by simp
    qed
  qed
qed

lemma branch_roots:
  "open_mapping st1 key indent = Some st' \<Longrightarrow>
     update_at (root st1) (current st1)
       (\<lambda>c. AddChild c (Node Type_Map None (Some key) []
                          (Some (Node Type_Scalar None (Some key) [] None)))) = Some (root st')"
  "add_sequence_item st1 v = Some st' \<Longrightarrow>
     update_at (root st1) (current st1)
       (\<lambda>c. AddChild c (Node Type_Scalar None (Some (TrimTrailingWhitespace (take 1023 v))) [] None))
       = Some (root st')"
  "add_key_value st1 key v = Some st' \<Longrightarrow>
     update_at (root st1) (current st1)
       (\<lambda>c. AddChild c (Node Type_Scalar None (Some (TrimTrailingWhitespace (take 1023 v))) []
                          (Some (Node Type_Scalar None (Some key) [] None)))) = Some (root st')"
  by (auto simp: open_mapping_def add_sequence_item_def add_key_value_def Let_def bind_eq_Some_conv)

lemma one_of_three:
  "(if a then x else if b then y else z) = Some r \<Longrightarrow> x = Some r \<or> y = Some r \<or> z = Some r"
  by (auto split: if_splits)

lemma ProcessLine_branches:
  assumes "ProcessLine st line indent = Some st'"
  shows "\<exists>st1. pop_indent indent st = Some st1 \<and>
           ((\<exists>key. open_mapping st1 key indent = Some st') \<or>
            (\<exists>v. add_sequence_item st1 v = Some st') \<or>
            (\<exists>key v. add_key_value st1 key v = Some st'))"
  using assms unfolding ProcessLine_def Let_def bind_eq_Some_conv
  by (elim exE conjE) (drule one_of_three, blast)

lemma ProcessLine_keys_typed:
  assumes "keys_typed (root st)" and "ProcessLine st line indent = Some st'"
  shows "keys_typed (root st')"
proof -
  from ProcessLine_branches [OF assms(2)] obtain st1 where pop: "pop_indent indent st = Some st1"
    and br: "(\<exists>key. open_mapping st1 key indent = Some st') \<or>
             (\<exists>v. add_sequence_item st1 v = Some st') \<or>
             (\<exists>key v. add_key_value st1 key v = Some st')"
    by blast
  have kt: "keys_typed (root st1)" using pop_indent_root [OF pop] assms(1) by simp
  from br obtain new where "update_at (root st1) (current st1) (\<lambda>c. AddChild c new) = Some (root st')"
    and "keys_typed new" and "map_key new \<noteq> None \<longrightarrow> node_type new \<noteq> Type_Null"
  proof (elim disjE exE)
    fix key assume "open_mapping st1 key indent = Some st'"
    from branch_roots(1) [OF this] show ?thesis by (rule that) simp_all
  next
    fix v assume "add_sequence_item st1 v = Some st'"
    from branch_roots(2) [OF this] show ?thesis by (rule that) simp_all
  next
    fix key v assume "add_key_value st1 key v = Some st'"
    from branch_roots(3) [OF this] show ?thesis by (rule that) simp_all
  qed
  from keys_typed_update [OF this(2,3) kt this(1)] show ?thesis by simp
qed

lemma Load_loop_keys_typed:
  "keys_typed (root st) \<Longrightarrow> Load_loop input st = Some st' \<Longrightarrow> keys_typed (root st')"
proof (induction input st rule: Load_loop.induct)
  case (1 input state)
  show ?case
  proof (cases "input = []")
    case True
    then have "Load_loop input state = Some state" by (subst Load_loop.simps) simp
    then show ?thesis using "1.prems" by simp
  next
    case False
    define line_buffer where "line_buffer = fst (ReadToEndOfLine 4096 input)"
    define rest where "rest = SkipWhitespace (snd (ReadToEndOfLine 4096 input))"
    show ?thesis
    proof (cases "rest = [] \<or> line_buffer = [] \<or> hd line_buffer = CHR ''#''")
      case True
      have "Load_loop input state = Load_loop rest state"
        using False True by (simp add: Load_loop.simps [of input state] line_buffer_def rest_def)
      then show ?thesis
        using "1.IH"(1) [OF False line_buffer_def rest_def True "1.prems"(1)] "1.prems"(2) by simp
    next
      case skip: False
      have step: "Load_loop input state =
            (case ProcessLine state line_buffer (GetIndent rest) of
               None \<Rightarrow> None | Some state' \<Rightarrow> Load_loop rest state')"
        using False skip
        by (simp add: Load_loop.simps [of input state] line_buffer_def [symmetric] rest_def [symmetric])
      then obtain st1 where st1: "ProcessLine state line_buffer (GetIndent rest) = Some st1"
        and rec: "Load_loop rest st1 = Some st'"
        using "1.prems"(2) by (auto split: option.splits)
      have "keys_typed (root st1)" by (rule ProcessLine_keys_typed [OF "1.prems"(1) st1])
      from "1.IH"(2) [OF False line_buffer_def rest_def skip st1 this rec] show ?thesis .
    qed
  qed
qed

lemma keys_typed_initial: "keys_typed (root initial_state)"
  by (simp add: initial_state_def Node_new_def)

section \<open>A line longer than the line buffer\<close>

lemma read_full_buffer:
  assumes "length xs = 4095" and "nl \<notin> set xs" and "y \<noteq> nl"
  shows "ReadToEndOfLine 4096 (xs @ y # r) = (xs, y # r)"
proof -
  have "takeWhile (\<lambda>c. c \<noteq> nl) (xs @ y # r) = xs @ takeWhile (\<lambda>c. c \<noteq> nl) (y # r)"
    using assms(2) by (intro takeWhile_append2) auto
  then show ?thesis using assms(1,3) by (simp add: ReadToEndOfLine_def Let_def)
qed

section \<open>Children without a key in a parser tree\<close>

lemma leaf_items_node_at:
  "leaf_items n \<Longrightarrow> node_at n p = Some m \<Longrightarrow> leaf_items m"
proof (induction n p rule: node_at.induct)
  case (1 n)
  then show ?case by simp
next
  case (2 n i p)
  then show ?case by (cases n) (auto split: if_splits)
next
  case (3 n p)
  then show ?case by (cases n) (auto split: option.splits)
qed

lemma leaf_items_children:
  "leaf_items n \<Longrightarrow> \<forall>c \<in> set (children n). map_key c = None \<longrightarrow> children c = []"
  by (cases n) auto

lemma leaf_items_update:
  assumes new: "leaf_items new" "map_key new = None \<longrightarrow> children new = []"
  shows "leaf_items n \<Longrightarrow> node_at n p = Some t \<Longrightarrow>
         p = [] \<or> last p = Key \<or> map_key t \<noteq> None \<Longrightarrow>
         update_at n p (\<lambda>c. AddChild c new) = Some n' \<Longrightarrow>
         leaf_items n' \<and> (map_key n' = None \<longleftrightarrow> map_key n = None)"
proof (induction n p "\<lambda>c. AddChild c new" arbitrary: n' rule: update_at.induct)
  case (1 n)
  then show ?case using new by (cases n) (auto simp: AddChild_def)
next
  case (2 n i p)
  obtain ty tg sv ch k where n: "n = Node ty tg sv ch k" by (cases n)
  from "2.prems"(4) n obtain c' where i: "i < length ch"
    and c': "update_at (ch ! i) p (\<lambda>c. AddChild c new) = Some c'"
    and n': "n' = Node ty tg sv (ch[i := c']) k"
    by (auto split: if_splits)
  have sub: "node_at (ch ! i) p = Some t" using "2.prems"(2) n i by simp
  have old: "leaf_items (ch ! i)" using "2.prems"(1) n i by auto
  have keyed: "map_key (ch ! i) \<noteq> None"
  proof
    assume none: "map_key (ch ! i) = None"
    then have empty: "children (ch ! i) = []" using "2.prems"(1) n i by auto
    show False
    proof (cases p)
      case Nil
      then have "t = ch ! i" using sub by simp
      then show False using "2.prems"(3) Nil none by simp
    next
      case (Cons s q)
      then show False using sub none empty by (cases s) auto
    qed
  qed
  have tail: "p = [] \<or> last p = Key \<or> map_key t \<noteq> None"
    using "2.prems"(3) by (cases "p = []") auto
  have ih: "leaf_items c' \<and> (map_key c' = None \<longleftrightarrow> map_key (ch ! i) = None)"
    using "2.hyps" [of c'] i n old sub tail c' by simp
  have "(map_key c = None \<longrightarrow> children c = []) \<and> leaf_items c"
    if "c \<in> set (ch[i := c'])" for c
  proof (cases "c = c'")
    case True
    then show ?thesis using ih keyed by auto
  next
    case False
    then have "c \<in> set ch" using that set_update_subset_insert [of ch i c'] by auto
    then show ?thesis using "2.prems"(1) n by auto
  qed
  then show ?case using "2.prems"(1) n n' by auto
next
  case (3 n p)
  obtain ty tg sv ch k where n: "n = Node ty tg sv ch k" by (cases n)
  from "3.prems"(4) n obtain kn kn' where k: "k = Some kn"
    and kn': "update_at kn p (\<lambda>c. AddChild c new) = Some kn'"
    and n': "n' = Node ty tg sv ch (Some kn')"
    by (auto split: option.splits)
  have sub: "node_at kn p = Some t" using "3.prems"(2) n k by simp
  have tail: "p = [] \<or> last p = Key \<or> map_key t \<noteq> None"
    using "3.prems"(3) by (cases "p = []") auto
  have "leaf_items kn'" using "3.hyps" [of kn kn'] "3.prems"(1) n k sub tail kn' by simp
  then show ?case using "3.prems"(1) n n' k by auto
qed

lemma pop_current_at_keyed:
  assumes "pop_current rt cur = Some cur'" and "at_keyed rt cur"
  shows "at_keyed rt cur'"
proof -
  from assms(1) obtain n where n: "node_at rt cur = Some n"
    by (auto simp: pop_current_def bind_eq_Some_conv)
  define cur1 where "cur1 = (if map_key n \<noteq> None then cur @ [Key] else cur)"
  from assms(1) n obtain parent where parent: "node_at rt cur1 = Some parent"
    and cur': "cur' = (if children parent \<noteq> [] \<and> map_key (last (children parent)) \<noteq> None
                       then cur1 @ [Child (length (children parent) - 1)] else cur1)"
    by (auto simp: pop_current_def Let_def bind_eq_Some_conv cur1_def)
  have k1: "at_keyed rt cur1"
  proof (cases "map_key n \<noteq> None")
    case True
    then show ?thesis using parent by (simp add: cur1_def at_keyed_def)
  next
    case False
    then show ?thesis using assms(2) by (simp add: cur1_def)
  qed
  show ?thesis
  proof (cases "children parent \<noteq> [] \<and> map_key (last (children parent)) \<noteq> None")
    case False
    then have "cur' = cur1" using cur' by auto
    then show ?thesis using k1 by simp
  next
    case True
    then have eq: "cur' = cur1 @ [Child (length (children parent) - 1)]"
      using cur' by auto
    have "node_at rt (cur1 @ [Child (length (children parent) - 1)]) =
               Some (last (children parent))"
      using parent True by (simp add: node_at_append last_conv_nth)
    then show ?thesis using True by (simp add: eq at_keyed_def)
  qed
qed

lemma pop_indent_at_keyed:
  "pop_indent indent st = Some st' \<Longrightarrow> at_keyed (root st) (current st) \<Longrightarrow>
   at_keyed (root st') (current st')"
proof (induction indent st rule: pop_indent.induct)
  case (1 indent state)
  show ?case
  proof (cases "indent_top state > 0")
    case False
    then show ?thesis using "1.prems" by (simp add: pop_indent.simps [of indent state])
  next
    case True
    then obtain top_indent where top: "stack_read (indent_stack state) (indent_top state) = Some top_indent"
      using "1.prems" by (auto simp: pop_indent.simps [of indent state] split: option.splits)
    show ?thesis
    proof (cases "indent \<le> top_indent")
      case False
      then show ?thesis using "1.prems" True top by (simp add: pop_indent.simps [of indent state])
    next
      case le: True
      then obtain cur where cur: "pop_current (root state) (current state) = Some cur"
        using "1.prems" True top
        by (auto simp: pop_indent.simps [of indent state] split: option.splits)
      have rec: "pop_indent indent (state\<lparr>indent_top := indent_top state - 1, current := cur\<rparr>) = Some st'"
        using "1.prems" True top le cur by (simp add: pop_indent.simps [of indent state])
      have "at_keyed (root state) cur" using pop_current_at_keyed [OF cur "1.prems"(2)] .
      then show ?thesis using "1.IH" [OF True top le cur rec] by simp
    qed
  qed
qed

lemma branch_current:
  "open_mapping st1 key indent = Some st' \<Longrightarrow>
     \<exists>parent. node_at (root st1) (current st1) = Some parent \<and>
              current st' = current st1 @ [Child (length (children parent))]"
  "add_sequence_item st1 v = Some st' \<Longrightarrow> current st' = current st1"
  "add_key_value st1 key v = Some st' \<Longrightarrow> current st' = current st1"
  by (auto simp: open_mapping_def add_sequence_item_def add_key_value_def Let_def bind_eq_Some_conv)

lemma ProcessLine_leaf_items:
  assumes inv: "leaf_items (root st)" "at_keyed (root st) (current st)"
    and run: "ProcessLine st line indent = Some st'"
  shows "leaf_items (root st') \<and> at_keyed (root st') (current st')"
proof -
  from ProcessLine_branches [OF run] obtain st1 where pop: "pop_indent indent st = Some st1"
    and br: "(\<exists>key. open_mapping st1 key indent = Some st') \<or>
             (\<exists>v. add_sequence_item st1 v = Some st') \<or>
             (\<exists>key v. add_key_value st1 key v = Some st')"
    by blast
  have rt: "root st1 = root st" by (rule pop_indent_root [OF pop])
  have li: "leaf_items (root st1)" using inv(1) rt by simp
  have ak: "at_keyed (root st1) (current st1)" by (rule pop_indent_at_keyed [OF pop inv(2)])
  then obtain t where t: "node_at (root st1) (current st1) = Some t"
    and where_t: "current st1 = [] \<or> last (current st1) = Key \<or> map_key t \<noteq> None"
    by (auto simp: at_keyed_def split: option.splits)
  have step: "leaf_items (root st') \<and>
              node_at (root st') (current st1) = Some (AddChild t new) \<and>
              node_at (root st') (current st1 @ [Child (length (children t))]) = Some new"
    if upd: "update_at (root st1) (current st1) (\<lambda>c. AddChild c new) = Some (root st')"
      and new: "leaf_items new" "map_key new = None \<longrightarrow> children new = []"
    for new
  proof -
    have "leaf_items (root st')" using leaf_items_update [OF new li t where_t upd] by blast
    moreover obtain rt' where "update_at (root st1) (current st1) (\<lambda>c. AddChild c new) = Some rt'"
      "node_at rt' (current st1) = Some (AddChild t new)"
      "node_at rt' (current st1 @ [Child (length (children t))]) = Some new"
      using add_child_at [OF t, of new] by blast
    ultimately show ?thesis using upd by simp
  qed
  from br show ?thesis
  proof (elim disjE exE)
    fix key assume o: "open_mapping st1 key indent = Some st'"
    let ?new = "Node Type_Map None (Some key) [] (Some (Node Type_Scalar None (Some key) [] None))"
    have s: "leaf_items (root st') \<and>
             node_at (root st') (current st1 @ [Child (length (children t))]) = Some ?new"
      using step [OF branch_roots(1) [OF o]] by simp
    have "current st' = current st1 @ [Child (length (children t))]"
      using branch_current(1) [OF o] t by auto
    then show ?thesis using s by (simp add: at_keyed_def)
  next
    fix v assume a: "add_sequence_item st1 v = Some st'"
    have s: "leaf_items (root st') \<and> node_at (root st') (current st1) =
             Some (AddChild t (Node Type_Scalar None (Some (TrimTrailingWhitespace (take 1023 v))) [] None))"
      using step [OF branch_roots(2) [OF a]] by simp
    then show ?thesis using branch_current(2) [OF a] where_t by (auto simp: at_keyed_def AddChild_def)
  next
    fix key v assume a: "add_key_value st1 key v = Some st'"
    have s: "leaf_items (root st') \<and> node_at (root st') (current st1) =
             Some (AddChild t (Node Type_Scalar None (Some (TrimTrailingWhitespace (take 1023 v))) []
                          (Some (Node Type_Scalar None (Some key) [] None))))"
      using step [OF branch_roots(3) [OF a]] by simp
    then show ?thesis using branch_current(3) [OF a] where_t by (auto simp: at_keyed_def AddChild_def)
  qed
qed

lemma Load_loop_leaf_items:
  "leaf_items (root st) \<and> at_keyed (root st) (current st) \<Longrightarrow> Load_loop input st = Some st' \<Longrightarrow>
   leaf_items (root st') \<and> at_keyed (root st') (current st')"
proof (induction input st rule: Load_loop.induct)
  case (1 input state)
  show ?case
  proof (cases "input = []")
    case True
    then have "Load_loop input state = Some state" by (subst Load_loop.simps) simp
    then show ?thesis using "1.prems" by simp
  next
    case False
    define line_buffer where "line_buffer = fst (ReadToEndOfLine 4096 input)"
    define rest where "rest = SkipWhitespace (snd (ReadToEndOfLine 4096 input))"
    show ?thesis
    proof (cases "rest = [] \<or> line_buffer = [] \<or> hd line_buffer = CHR ''#''")
      case True
      have "Load_loop input state = Load_loop rest state"
        using False True by (simp add: Load_loop.simps [of input state] line_buffer_def rest_def)
      then show ?thesis
        using "1.IH"(1) [OF False line_buffer_def rest_def True "1.prems"(1)] "1.prems"(2) by simp
    next
      case skip: False
      have step: "Load_loop input state =
            (case ProcessLine state line_buffer (GetIndent rest) of
               None \<Rightarrow> None | Some state' \<Rightarrow> Load_loop rest state')"
        using False skip
        by (simp add: Load_loop.simps [of input state] line_buffer_def [symmetric] rest_def [symmetric])
      then obtain st1 where st1: "ProcessLine state line_buffer (GetIndent rest) = Some st1"
        and rec: "Load_loop rest st1 = Some st'"
        using "1.prems"(2) by (auto split: option.splits)
      have "leaf_items (root st1) \<and> at_keyed (root st1) (current st1)"
        using ProcessLine_leaf_items [OF _ _ st1] "1.prems"(1) by blast
      from "1.IH"(2) [OF False line_buffer_def rest_def skip st1 this rec] show ?thesis .
    qed
  qed
qed

lemma leaf_items_initial:
  "leaf_items (root initial_state) \<and> at_keyed (root initial_state) (current initial_state)"
  by (simp add: initial_state_def Node_new_def at_keyed_def)

lemma leaf_item_copy: "map_key c = None \<Longrightarrow> children c = [] \<Longrightarrow> Node_copy c = c"
  by (cases c) simp

lemma Node_index_parser_tree:
  assumes "Load_loop content initial_state = Some st" and "node_at (root st) p = Some m"
    and "index < Node_size m"
  shows "Node_index m index = filter (\<lambda>c. map_key c = None) (children m) ! index"
proof -
  have "leaf_items (root st)" using Load_loop_leaf_items [OF leaf_items_initial assms(1)] by blast
  then have "leaf_items m" using assms(2) by (rule leaf_items_node_at)
  then have leaves: "\<forall>c \<in> set (children m). map_key c = None \<longrightarrow> children c = []"
    by (rule leaf_items_children)
  let ?u = "filter (\<lambda>c. map_key c = None) (children m)"
  have idx: "index < length ?u" using assms(3) by (simp add: Node_size_def size_loop_filter)
  then have "?u ! index \<in> set ?u" by (rule nth_mem)
  then have "map_key (?u ! index) = None \<and> children (?u ! index) = []" using leaves by auto
  then have "Node_copy (?u ! index) = ?u ! index" by (simp add: leaf_item_copy)
  then show ?thesis using idx by (simp add: Node_index_def index_loop_filter)
qed

section \<open>A file whose size is not reported\<close>

lemma LoadFile_ftell_failure:
  "fopen_result io filename = Some bytes \<Longrightarrow> malloc_succeeds io \<Longrightarrow> ftell_result io = - 1 \<Longrightarrow>
   LoadFile io filename = Inl MemoryFault"
  by (simp add: LoadFile_def Let_def)

section \<open>Claims\<close>

text \<open>
  C1. The spec expects the two lines \<^verbatim>\<open>name: Test\<close> and \<^verbatim>\<open>count: 5\<close> to give a root mapping
  with two entries that answer \<^verbatim>\<open>"Test"\<close> and \<^verbatim>\<open>5\<close>. The code returns a root of kind Null
  with one child, a Map node whose scalar text is \<^verbatim>\<open>name\<close> and which has no key: the value
  \<^verbatim>\<open>Test\<close> is dropped, the last line is never processed, and the copy returned has lost the
  key, so both lookups give a Null node.
\<close>

theorem Load_flat_mapping_example:
  "Load (''name: Test'' @ [nl] @ ''count: 5'' @ [nl]) =
     Inr (Node Type_Null None None [Node Type_Map None (Some ''name'') [] None] None) \<and>
   as_string (Node_lookup (Node Type_Null None None [Node Type_Map None (Some ''name'') [] None] None) ''name'') = [] \<and>
   as_int (Node_lookup (Node Type_Null None None [Node Type_Map None (Some ''name'') [] None] None) ''count'') = 0 \<and>
   \<not> IsMap (Node Type_Null None None [Node Type_Map None (Some ''name'') [] None] None) \<and>
   length (children (Node Type_Null None None [Node Type_Map None (Some ''name'') [] None] None)) = 1"
  by code_simp

text \<open>
  C2. For every content, \<^verbatim>\<open>Load\<close> ends and returns a tree. The loop is a total function (its
  termination is proved with its definition), and no step leaves the defined behaviour of
  C++: every access to \<^verbatim>\<open>indent_stack\<close> stays within its 64 slots and \<^verbatim>\<open>current\<close> always
  refers to a node.
\<close>

theorem Load_never_fails: "\<exists>d. Load content = Inr d"
  using Load_total [of content] by blast

theorem Load_never_fails_witness:
  "\<exists>d. Load (''a:'' @ [nl] @ ''  b:'' @ [nl] @ ''      c: d'' @ [nl] @ '' e'' @ [nl] @ [tab] @ '': - f'') = Inr d"
  using Load_never_fails [of "''a:'' @ [nl] @ ''  b:'' @ [nl] @ ''      c: d'' @ [nl] @ '' e'' @ [nl] @ [tab] @ '': - f''"]
  by simp

text \<open>
  C3. The spec expects a copy to be equal to the original, keys included. The copy
  constructor copies type, tag, scalar text and children, and leaves \<^verbatim>\<open>map_key_\<close> null on every
  node it creates. For the content \<^verbatim>\<open>k: v\<close>, \<^verbatim>\<open>x\<close> the root that \<^verbatim>\<open>Load\<close> has built holds a child
  with the key \<^verbatim>\<open>k\<close>; the copy made by its \<^verbatim>\<open>return\<close> holds the child without the key.
\<close>

theorem Node_copy_drops_keys_example:
  "map_option root (Load_loop (''k: v'' @ [nl] @ ''x'') initial_state) =
     Some (Node Type_Null None None
             [Node Type_Map None (Some ''k'') [] (Some (Node Type_Scalar None (Some ''k'') [] None))]
             None) \<and>
   Node_copy (Node Type_Null None None
             [Node Type_Map None (Some ''k'') [] (Some (Node Type_Scalar None (Some ''k'') [] None))]
             None) =
     Node Type_Null None None [Node Type_Map None (Some ''k'') [] None] None \<and>
   HasKey (Node Type_Null None None
             [Node Type_Map None (Some ''k'') [] (Some (Node Type_Scalar None (Some ''k'') [] None))]
             None) ''k'' \<and>
   \<not> HasKey (Node_copy (Node Type_Null None None
             [Node Type_Map None (Some ''k'') [] (Some (Node Type_Scalar None (Some ''k'') [] None))]
             None)) ''k''"
  by code_simp

text \<open>
  C4. For every content, the tree that \<^verbatim>\<open>Load\<close> returns has no key on any node, whatever
  path of child and key links leads to the node; so on the returned root \<^verbatim>\<open>HasKey\<close> is false
  and the keyed \<^verbatim>\<open>operator[]\<close> gives the Null node \<^verbatim>\<open>Node()\<close> for every key, and \<^verbatim>\<open>size()\<close> is
  the number of all children.
\<close>

theorem Load_result_has_no_keys:
  "\<exists>d. Load content = Inr d \<and>
       (\<forall>p m. node_at d p = Some m \<longrightarrow> map_key m = None) \<and>
       (\<forall>key. \<not> HasKey d key \<and> Node_lookup d key = Node_new None \<and> IsNull (Node_lookup d key)) \<and>
       Node_size d = length (children d)"
proof -
  obtain st :: ParseState where st: "Load content = Inr (Node_copy (root st))"
    using Load_total [of content] by blast
  let ?d = "Node_copy (root st)"
  have "\<forall>p m. node_at ?d p = Some m \<longrightarrow> map_key m = None"
    using node_at_Node_copy by blast
  moreover have "\<forall>key. \<not> HasKey ?d key \<and> Node_lookup ?d key = Node_new None \<and> IsNull (Node_lookup ?d key)"
    using keyless_children(1,2) [OF keyless_children_copy]
    by (simp add: HasKey_def Node_lookup_def IsNull_def Node_new_def)
  moreover have "Node_size ?d = length (children ?d)"
    using keyless_children(3) [OF keyless_children_copy, of "root st" 0] by (simp add: Node_size_def)
  ultimately show ?thesis using st by blast
qed

theorem Load_result_has_no_keys_witness:
  "\<exists>d. Load (''k: v'' @ [nl] @ ''x'') = Inr d \<and>
       node_at d [Child 0] = Some (Node Type_Map None (Some ''k'') [] None) \<and>
       map_key (Node Type_Map None (Some ''k'') [] None) = None \<and>
       \<not> HasKey d ''k'' \<and> Node_size d = 1"
proof -
  have ld: "Load (''k: v'' @ [nl] @ ''x'') =
            Inr (Node Type_Null None None [Node Type_Map None (Some ''k'') [] None] None)"
    by code_simp
  from Load_result_has_no_keys [of "''k: v'' @ [nl] @ ''x''"] ld
  have "\<not> HasKey (Node Type_Null None None [Node Type_Map None (Some ''k'') [] None] None) ''k''"
    and "Node_size (Node Type_Null None None [Node Type_Map None (Some ''k'') [] None] None) = 1"
    by auto
  then show ?thesis using ld by simp
qed

text \<open>
  C5. As stated the claim fails for a comment line longer than the line buffer: the first
  4095 bytes are skipped as a comment and the rest of the line is parsed as an entry.
\<close>

theorem long_comment_counterexample:
  "Load (''- a'' @ [nl] @ CHR ''#'' # replicate 4095 (CHR ''c'') @ [nl] @ ''- b'' @ [nl] @ ''- z'' @ [nl]) =
     Inr (Node Type_Null None None
       [Node Type_Scalar None (Some '' a'') [] None,
        Node Type_Scalar None (Some []) [] None,
        Node Type_Scalar None (Some '' b'') [] None] None) \<and>
   Load (''- a'' @ [nl] @ ''- b'' @ [nl] @ ''- z'' @ [nl]) =
     Inr (Node Type_Null None None
       [Node Type_Scalar None (Some '' a'') [] None,
        Node Type_Scalar None (Some '' b'') [] None] None) \<and>
   Load (''- a'' @ [nl] @ CHR ''#'' # replicate 4095 (CHR ''c'') @ [nl] @ ''- b'' @ [nl] @ ''- z'' @ [nl]) \<noteq>
   Load (''- a'' @ [nl] @ ''- b'' @ [nl] @ ''- z'' @ [nl])"
proof -
  let ?tail = "''c'' @ [nl] @ ''- b'' @ [nl] @ ''- z'' @ [nl]"
  let ?long = "CHR ''#'' # replicate 4094 (CHR ''c'')"
  let ?st1 = "initial_state\<lparr>root := Node Type_Null None None
       [Node Type_Scalar None (Some '' a'') [] (Some (Node Type_Scalar None (Some ''-'') [] None))] None\<rparr>"
  have rep: "replicate 4095 (CHR ''c'') = replicate 4094 (CHR ''c'') @ ''c''"
  proof -
    have "replicate (Suc 4094) (CHR ''c'') = replicate 4094 (CHR ''c'') @ ''c''"
      by (simp only: replicate_Suc replicate_append_same)
    then show ?thesis by simp
  qed
  have input: "''- a'' @ [nl] @ CHR ''#'' # replicate 4095 (CHR ''c'') @ [nl] @ ''- b'' @ [nl] @ ''- z'' @ [nl]
               = ''- a'' @ nl # (?long @ ?tail)"
    unfolding rep by simp
  have first: "ReadToEndOfLine 4096 (''- a'' @ nl # (?long @ ?tail)) = (''- a'', ?long @ ?tail)"
    by (simp add: ReadToEndOfLine_def Let_def)
  have line1: "ProcessLine initial_state ''- a'' 0 = Some ?st1"
    by code_simp
  have skip1: "SkipWhitespace (?long @ ?tail) = ?long @ ?tail"
    by (simp add: SkipWhitespace_def isspace_def)
  have "Load_loop (''- a'' @ nl # (?long @ ?tail)) initial_state = Load_loop (?long @ ?tail) ?st1"
    by (subst Load_loop_step [OF _ first], simp, unfold skip1 line1, simp)
  also have "\<dots> = Load_loop ?tail ?st1"
  proof -
    have "ReadToEndOfLine 4096 (?long @ CHR ''c'' # (nl # ''- b'' @ [nl] @ ''- z'' @ [nl])) =
          (?long, CHR ''c'' # (nl # ''- b'' @ [nl] @ ''- z'' @ [nl]))"
      by (rule read_full_buffer) simp_all
    then have second: "ReadToEndOfLine 4096 (?long @ ?tail) = (?long, ?tail)" by simp
    have skip2: "SkipWhitespace ?tail = ?tail" by (simp add: SkipWhitespace_def isspace_def)
    show ?thesis by (subst Load_loop_step [OF _ second], simp, unfold skip2, simp)
  qed
  also have "\<dots> = Some (initial_state\<lparr>root := Node Type_Null None None
       [Node Type_Scalar None (Some '' a'') [] (Some (Node Type_Scalar None (Some ''-'') [] None)),
        Node Type_Scalar None (Some []) [] (Some (Node Type_Scalar None (Some ''c'') [] None)),
        Node Type_Scalar None (Some '' b'') [] (Some (Node Type_Scalar None (Some ''-'') [] None))] None\<rparr>)"
    by code_simp
  finally have "Load (''- a'' @ nl # (?long @ ?tail)) =
     Inr (Node Type_Null None None
       [Node Type_Scalar None (Some '' a'') [] None,
        Node Type_Scalar None (Some []) [] None,
        Node Type_Scalar None (Some '' b'') [] None] None)"
    by (simp add: Load_def)
  moreover have "Load (''- a'' @ [nl] @ ''- b'' @ [nl] @ ''- z'' @ [nl]) =
     Inr (Node Type_Null None None
       [Node Type_Scalar None (Some '' a'') [] None,
        Node Type_Scalar None (Some '' b'') [] None] None)"
    by code_simp
  ultimately show ?thesis unfolding input by simp
qed

text \<open>
  C5, amended. Let the content be \<open>before @ after\<close>, where \<open>before\<close> is not empty and ends with
  a line break and \<open>after\<close> holds a byte that is not white space. Inserting between them a
  blank line, or a comment line of at most 4095 bytes from its \<^verbatim>\<open>#\<close> to its line break, does
  not change what \<^verbatim>\<open>Load\<close> returns, nor the state in which its loop ends, indent stack
  included.
\<close>

theorem skipped_line_transparent:
  assumes "before \<noteq> []" and "last before = nl" and "skipped_line l" and "\<not> list_all isspace after"
  shows "Load_loop (before @ l @ after) initial_state = Load_loop (before @ after) initial_state \<and>
         Load (before @ l @ after) = Load (before @ after)"
  using Load_loop_skipped_line [OF assms(3,4,1,2)] by (simp add: Load_def)

theorem skipped_line_transparent_witness:
  "Load ((''- a'' @ [nl]) @ ([tab] @ '' # note'' @ [nl]) @ (''- b'' @ [nl] @ ''- z'' @ [nl])) =
   Load ((''- a'' @ [nl]) @ (''- b'' @ [nl] @ ''- z'' @ [nl])) \<and>
   Load ((''- a'' @ [nl]) @ (''   '' @ [nl]) @ (''- b'' @ [nl] @ ''- z'' @ [nl])) =
   Load ((''- a'' @ [nl]) @ (''- b'' @ [nl] @ ''- z'' @ [nl]))"
proof -
  have c: "skipped_line ([tab] @ '' # note'' @ [nl])" by (simp add: skipped_line_def isspace_def)
  have b: "skipped_line (''   '' @ [nl])" by (simp add: skipped_line_def isspace_def)
  have before: "''- a'' @ [nl] \<noteq> []" "last (''- a'' @ [nl]) = nl" by simp_all
  have after: "\<not> list_all isspace (''- b'' @ [nl] @ ''- z'' @ [nl])" by (simp add: isspace_def)
  show ?thesis
    using skipped_line_transparent [OF before c after] skipped_line_transparent [OF before b after]
    by simp
qed

text \<open>
  C6. As stated the claim fails: \<^verbatim>\<open>as_bool\<close> looks at the scalar text only, never at the kind,
  and the Map node that the parser creates for a line \<^verbatim>\<open>yes:\<close> carries \<^verbatim>\<open>yes\<close> as its scalar text.
\<close>

theorem as_bool_mapping_counterexample:
  "Load (''yes:'' @ [nl] @ ''x'') =
     Inr (Node Type_Null None None [Node Type_Map None (Some ''yes'') [] None] None) \<and>
   Node_index (Node Type_Null None None [Node Type_Map None (Some ''yes'') [] None] None) 0 =
     Node Type_Map None (Some ''yes'') [] None \<and>
   as_bool (Node Type_Map None (Some ''yes'') [] None) \<and>
   \<not> IsScalar (Node Type_Map None (Some ''yes'') [] None)"
  by code_simp

text \<open>
  C6, amended. For every node \<open>n\<close> of any kind, \<^verbatim>\<open>n.as_bool()\<close> is true iff the text that
  \<^verbatim>\<open>n.as_string()\<close> returns is exactly \<^verbatim>\<open>true\<close>, \<^verbatim>\<open>yes\<close> or \<^verbatim>\<open>1\<close>; a node without scalar text
  answers false.
\<close>

theorem as_bool_by_text:
  "(as_bool n \<longleftrightarrow> as_string n = ''true'' \<or> as_string n = ''yes'' \<or> as_string n = ''1'') \<and>
   (scalar_value n = None \<longrightarrow> \<not> as_bool n)"
  by (cases "scalar_value n") (auto simp: as_bool_def as_string_def)

theorem as_bool_by_text_witness:
  "as_bool (Node Type_Scalar None (Some ''yes'') [] None) \<and>
   \<not> as_bool (Node Type_Scalar None (Some ''True'') [] None) \<and>
   scalar_value (Node Type_Sequence None None [] None) = None \<and>
   \<not> as_bool (Node Type_Sequence None None [] None)"
  using as_bool_by_text [of "Node Type_Scalar None (Some ''yes'') [] None"]
    as_bool_by_text [of "Node Type_Scalar None (Some ''True'') [] None"]
    as_bool_by_text [of "Node Type_Sequence None None [] None"]
  by (simp add: as_string_def)

text \<open>
  C7. \<^verbatim>\<open>size()\<close> is the number of children without a key. An index at or beyond it gives the
  Null node \<^verbatim>\<open>Node()\<close>; an index below it gives the child at that position among the children
  without a key. The child is returned by value, as the copy constructor copies it: with its
  kind, tag and scalar text, with its children copied in order, and without keys. For a node
  without keys, which is every node a caller holds (a document returned by \<^verbatim>\<open>Load\<close>, any copy),
  \<^verbatim>\<open>size()\<close> is the number of children and the node returned is equal to the child at the
  index. For every node of a tree built by the parser the node returned is equal to the child
  selected as well, since there a child without a key is a leaf.
\<close>

theorem Node_index_positional:
  "Node_size n = length (filter (\<lambda>c. map_key c = None) (children n)) \<and>
   (Node_size n \<le> index \<longrightarrow> Node_index n index = Node_new None \<and> IsNull (Node_index n index)) \<and>
   (index < Node_size n \<longrightarrow>
      Node_index n index = Node_copy (filter (\<lambda>c. map_key c = None) (children n) ! index) \<and>
      node_type (Node_index n index) =
        node_type (filter (\<lambda>c. map_key c = None) (children n) ! index) \<and>
      scalar_value (Node_index n index) =
        scalar_value (filter (\<lambda>c. map_key c = None) (children n) ! index) \<and>
      node_tag (Node_index n index) =
        node_tag (filter (\<lambda>c. map_key c = None) (children n) ! index) \<and>
      children (Node_index n index) =
        map Node_copy (children (filter (\<lambda>c. map_key c = None) (children n) ! index)) \<and>
      map_key (Node_index n index) = None) \<and>
   (key_free n \<longrightarrow>
      Node_size n = length (children n) \<and>
      (index < Node_size n \<longrightarrow> Node_index n index = children n ! index)) \<and>
   (key_free (Node_copy n) \<and>
    (index < length (children (Node_copy n)) \<longrightarrow>
       Node_index (Node_copy n) index = children (Node_copy n) ! index)) \<and>
   (\<forall>d. Load content = Inr d \<longrightarrow>
      key_free d \<and> Node_size d = length (children d) \<and>
      (index < length (children d) \<longrightarrow> Node_index d index = children d ! index)) \<and>
   (\<forall>st p m. Load_loop content initial_state = Some st \<longrightarrow> node_at (root st) p = Some m \<longrightarrow>
      index < Node_size m \<longrightarrow>
      Node_index m index = filter (\<lambda>c. map_key c = None) (children m) ! index)"
proof -
  have general: "Node_size n = length (filter (\<lambda>c. map_key c = None) (children n)) \<and>
   (Node_size n \<le> index \<longrightarrow> Node_index n index = Node_new None \<and> IsNull (Node_index n index)) \<and>
   (index < Node_size n \<longrightarrow>
      Node_index n index = Node_copy (filter (\<lambda>c. map_key c = None) (children n) ! index))" for n
    by (simp add: Node_size_def Node_index_def size_loop_filter index_loop_filter IsNull_def
          Node_new_def)
  have plain: "Node_size m = length (children m) \<and>
      (index < length (children m) \<longrightarrow> Node_index m index = children m ! index)"
    if kf: "key_free m" for m
  proof -
    have all: "filter (\<lambda>c. map_key c = None) (children m) = children m"
      using key_free_children [OF kf] by (simp add: key_free_no_key)
    have "Node_copy (children m ! index) = children m ! index" if "index < length (children m)"
      using key_free_children [OF kf] that by (simp add: Node_copy_key_free)
    then show ?thesis using general [of m] all by simp
  qed
  have loaded: "key_free d \<and> Node_size d = length (children d) \<and>
      (index < length (children d) \<longrightarrow> Node_index d index = children d ! index)"
    if "Load content = Inr d" for d
  proof -
    obtain st :: ParseState where "Load content = Inr (Node_copy (root st))"
      using Load_total [of content] by blast
    then have "d = Node_copy (root st)" using that by simp
    then have "key_free d" by (simp add: key_free_Node_copy)
    then show ?thesis using plain by blast
  qed
  have in_range:
    "Node_index n index = Node_copy (filter (\<lambda>c. map_key c = None) (children n) ! index) \<and>
      node_type (Node_index n index) =
        node_type (filter (\<lambda>c. map_key c = None) (children n) ! index) \<and>
      scalar_value (Node_index n index) =
        scalar_value (filter (\<lambda>c. map_key c = None) (children n) ! index) \<and>
      node_tag (Node_index n index) =
        node_tag (filter (\<lambda>c. map_key c = None) (children n) ! index) \<and>
      children (Node_index n index) =
        map Node_copy (children (filter (\<lambda>c. map_key c = None) (children n) ! index)) \<and>
      map_key (Node_index n index) = None"
    if "index < Node_size n"
  proof -
    have "Node_index n index = Node_copy (filter (\<lambda>c. map_key c = None) (children n) ! index)"
      using general [of n] that by blast
    then show ?thesis
      by (simp only: node_type_Node_copy scalar_value_Node_copy node_tag_Node_copy
            children_Node_copy map_key_Node_copy simp_thms)
  qed
  have keyless: "Node_size n = length (children n) \<and>
      (index < Node_size n \<longrightarrow> Node_index n index = children n ! index)"
    if "key_free n"
  proof -
    have "Node_size n = length (children n)" using plain [OF that] by blast
    then show ?thesis using plain [OF that] by simp
  qed
  have copied: "key_free (Node_copy n) \<and>
    (index < length (children (Node_copy n)) \<longrightarrow>
       Node_index (Node_copy n) index = children (Node_copy n) ! index)"
    using plain [OF key_free_Node_copy, of n] key_free_Node_copy [of n] by blast
  have built: "Node_index m index = filter (\<lambda>c. map_key c = None) (children m) ! index"
    if "Load_loop content initial_state = Some st" "node_at (root st) p = Some m"
      "index < Node_size m" for st p m
    using that by (rule Node_index_parser_tree)
  show ?thesis
    using general [of n] in_range keyless copied loaded built by blast
qed

theorem Node_index_positional_witness:
  "Node_size (Node Type_Map None None
     [Node Type_Scalar None (Some ''v'') [] (Some (Node Type_Scalar None (Some ''k'') [] None)),
      Node Type_Scalar None (Some ''a'') [] None] None) \<le> 1 \<and>
   IsNull (Node_index (Node Type_Map None None
     [Node Type_Scalar None (Some ''v'') [] (Some (Node Type_Scalar None (Some ''k'') [] None)),
      Node Type_Scalar None (Some ''a'') [] None] None) 1) \<and>
   0 < Node_size (Node Type_Map None None
     [Node Type_Scalar None (Some ''v'') [] (Some (Node Type_Scalar None (Some ''k'') [] None)),
      Node Type_Scalar None (Some ''a'') [] None] None) \<and>
   Node_index (Node Type_Map None None
     [Node Type_Scalar None (Some ''v'') [] (Some (Node Type_Scalar None (Some ''k'') [] None)),
      Node Type_Scalar None (Some ''a'') [] None] None) 0 = Node Type_Scalar None (Some ''a'') [] None \<and>
   key_free (Node Type_Sequence None None
     [Node Type_Sequence (Some ''t'') None
        [Node Type_Scalar None (Some ''a'') [] None, Node Type_Scalar None (Some ''b'') [] None] None,
      Node Type_Scalar None (Some ''c'') [] None] None) \<and>
   Node_index (Node Type_Sequence None None
     [Node Type_Sequence (Some ''t'') None
        [Node Type_Scalar None (Some ''a'') [] None, Node Type_Scalar None (Some ''b'') [] None] None,
      Node Type_Scalar None (Some ''c'') [] None] None) 0 =
     Node Type_Sequence (Some ''t'') None
        [Node Type_Scalar None (Some ''a'') [] None, Node Type_Scalar None (Some ''b'') [] None] None"
proof -
  let ?n = "Node Type_Map None None
     [Node Type_Scalar None (Some ''v'') [] (Some (Node Type_Scalar None (Some ''k'') [] None)),
      Node Type_Scalar None (Some ''a'') [] None] None"
  let ?m = "Node Type_Sequence None None
     [Node Type_Sequence (Some ''t'') None
        [Node Type_Scalar None (Some ''a'') [] None, Node Type_Scalar None (Some ''b'') [] None] None,
      Node Type_Scalar None (Some ''c'') [] None] None"
  have sz: "Node_size ?n = 1" by (simp add: Node_size_def)
  have "IsNull (Node_index ?n 1)"
    using Node_index_positional [of ?n 1] sz by (simp add: IsNull_def Node_new_def)
  moreover have "Node_index ?n 0 = Node Type_Scalar None (Some ''a'') [] None"
    using Node_index_positional [of ?n 0] sz by simp
  moreover have kf: "key_free ?m" by simp
  moreover have "Node_index ?m 0 = Node Type_Sequence (Some ''t'') None
        [Node Type_Scalar None (Some ''a'') [] None, Node Type_Scalar None (Some ''b'') [] None] None"
  proof -
    from Node_index_positional [of ?m 0] kf
    have "Node_size ?m = length (children ?m)"
      and "0 < Node_size ?m \<longrightarrow> Node_index ?m 0 = children ?m ! 0"
      by blast+
    then show ?thesis by simp
  qed
  ultimately show ?thesis using sz by simp
qed

text \<open>
  C8. \<^verbatim>\<open>HasKey(key)\<close> is true iff the keyed \<^verbatim>\<open>operator[]\<close> returns a node that is not Null, for
  every node whose children with a key are not of kind Null; that holds for every node of a
  tree built by the parser, and for every copy. When no child of a node has the key, the
  lookup returns a Null node and \<^verbatim>\<open>HasKey\<close> is false; on a document returned by \<^verbatim>\<open>Load\<close> this
  is so for every key.
\<close>

theorem HasKey_iff_lookup:
  "((\<forall>c \<in> set (children n). map_key c \<noteq> None \<longrightarrow> node_type c \<noteq> Type_Null) \<longrightarrow>
      (HasKey n key \<longleftrightarrow> \<not> IsNull (Node_lookup n key))) \<and>
   ((\<forall>c \<in> set (children n). \<forall>k. map_key c = Some k \<longrightarrow> scalar_value k \<noteq> Some key) \<longrightarrow>
      IsNull (Node_lookup n key) \<and> \<not> HasKey n key) \<and>
   (\<forall>d. Load content = Inr d \<longrightarrow>
      \<not> HasKey d key \<and> IsNull (Node_lookup d key) \<and>
      (HasKey d key \<longleftrightarrow> \<not> IsNull (Node_lookup d key))) \<and>
   (\<forall>st p m. Load_loop content initial_state = Some st \<longrightarrow> node_at (root st) p = Some m \<longrightarrow>
      (HasKey m key \<longleftrightarrow> \<not> IsNull (Node_lookup m key))) \<and>
   (HasKey (Node_copy n) key \<longleftrightarrow> \<not> IsNull (Node_lookup (Node_copy n) key))"
proof -
  have copied: "HasKey (Node_copy n) key \<longleftrightarrow> \<not> IsNull (Node_lookup (Node_copy n) key)"
    using keyless_children(1,2) [OF keyless_children_copy, of n key]
    by (simp add: HasKey_def Node_lookup_def IsNull_def Node_new_def)
  have absent: "IsNull (Node_lookup n key) \<and> \<not> HasKey n key"
    if "\<forall>c \<in> set (children n). \<forall>k. map_key c = Some k \<longrightarrow> scalar_value k \<noteq> Some key"
  proof -
    have no: "\<not> HasKey_loop (children n) key" using that by (auto simp: HasKey_loop_iff)
    then show ?thesis
      using lookup_loop_missing [OF no] by (simp add: HasKey_def Node_lookup_def IsNull_def Node_new_def)
  qed
  have parsed: "\<not> HasKey d key \<and> IsNull (Node_lookup d key) \<and>
                (HasKey d key \<longleftrightarrow> \<not> IsNull (Node_lookup d key))"
    if "Load content = Inr d" for d
  proof -
    obtain st :: ParseState where "Load content = Inr (Node_copy (root st))"
      using Load_total [of content] by blast
    then have d: "d = Node_copy (root st)" using that by simp
    show ?thesis
      using keyless_children(1,2) [OF keyless_children_copy, of "root st" key]
      by (simp add: d HasKey_def Node_lookup_def IsNull_def Node_new_def)
  qed
  have internal: "HasKey m key \<longleftrightarrow> \<not> IsNull (Node_lookup m key)"
    if "Load_loop content initial_state = Some st" "node_at (root st) p = Some m" for st p m
  proof -
    have "keys_typed (root st)" using Load_loop_keys_typed [OF keys_typed_initial that(1)] .
    then have "keys_typed m" using that(2) by (rule keys_typed_node_at)
    then show ?thesis using HasKey_lookup_typed keys_typed_children by blast
  qed
  show ?thesis using HasKey_lookup_typed absent parsed internal copied by blast
qed

theorem HasKey_iff_lookup_witness:
  "HasKey (Node Type_Null None None
     [Node Type_Map None (Some ''k'') [] (Some (Node Type_Scalar None (Some ''k'') [] None))] None) ''k'' \<and>
   \<not> IsNull (Node_lookup (Node Type_Null None None
     [Node Type_Map None (Some ''k'') [] (Some (Node Type_Scalar None (Some ''k'') [] None))] None) ''k'') \<and>
   IsNull (Node_lookup (Node Type_Null None None
     [Node Type_Map None (Some ''k'') [] (Some (Node Type_Scalar None (Some ''k'') [] None))] None) ''z'') \<and>
   \<not> HasKey (Node Type_Null None None
     [Node Type_Map None (Some ''k'') [] (Some (Node Type_Scalar None (Some ''k'') [] None))] None) ''z''"
proof -
  let ?n = "Node Type_Null None None
     [Node Type_Map None (Some ''k'') [] (Some (Node Type_Scalar None (Some ''k'') [] None))] None"
  have typed: "\<forall>c \<in> set (children ?n). map_key c \<noteq> None \<longrightarrow> node_type c \<noteq> Type_Null" by simp
  have absent: "\<forall>c \<in> set (children ?n). \<forall>k. map_key c = Some k \<longrightarrow> scalar_value k \<noteq> Some ''z''"
    by simp
  have has: "HasKey ?n ''k''" by (simp add: HasKey_def key_matches_def)
  from HasKey_iff_lookup [of ?n "''k''" "[]"] typed has
  have "\<not> IsNull (Node_lookup ?n ''k'')" by blast
  moreover from HasKey_iff_lookup [of ?n "''z''" "[]"] absent
  have "IsNull (Node_lookup ?n ''z'') \<and> \<not> HasKey ?n ''z''" by blast
  ultimately show ?thesis using has by blast
qed

text \<open>
  C9. As stated the claim fails for a short read: \<^verbatim>\<open>LoadFile\<close> terminates the buffer after the
  bytes that \<^verbatim>\<open>fread\<close> delivered and parses them, without an error.
\<close>

theorem LoadFile_short_read_counterexample:
  "LoadFile \<lparr>fopen_result = [''f'' \<mapsto> ''- a'' @ [nl] @ ''- b'' @ [nl] @ ''- c'' @ [nl]],
            ftell_result = 12, malloc_succeeds = True, fread_count = 6\<rparr> ''f'' =
     Inr (Node Type_Null None None [Node Type_Scalar None (Some '' a'') [] None] None) \<and>
   length (''- a'' @ [nl] @ ''- b'' @ [nl] @ ''- c'' @ [nl]) = 12 \<and> (6 :: nat) < 12"
proof -
  have "Load (''- a'' @ [nl] @ ''- '') =
        Inr (Node Type_Null None None [Node Type_Scalar None (Some '' a'') [] None] None)"
    by code_simp
  then show ?thesis by (simp add: LoadFile_def Let_def)
qed

text \<open>
  C9, amended. \<^verbatim>\<open>LoadFile\<close> raises \<^verbatim>\<open>Failed to open file\<close> exactly when the file cannot be
  opened, and \<^verbatim>\<open>Failed to allocate memory\<close> exactly when the file opens and the buffer is not
  obtained; it raises no exception with another message. When the file opens, the buffer is
  obtained and \<^verbatim>\<open>ftell\<close> has reported a size (its answer is not \<open>-1\<close>), \<^verbatim>\<open>LoadFile\<close> returns what
  \<^verbatim>\<open>Load\<close> returns on the bytes that were read, up to the first NUL byte, which is always a
  tree, also when fewer bytes were read than the size; then it fails in no other way.
\<close>

theorem LoadFile_errors:
  "(LoadFile io filename = Inl (Exception ''Failed to open file'') \<longleftrightarrow>
      fopen_result io filename = None) \<and>
   (LoadFile io filename = Inl (Exception ''Failed to allocate memory'') \<longleftrightarrow>
      fopen_result io filename \<noteq> None \<and> \<not> malloc_succeeds io) \<and>
   (\<forall>msg. LoadFile io filename = Inl (Exception msg) \<longrightarrow>
      msg = ''Failed to open file'' \<or> msg = ''Failed to allocate memory'') \<and>
   (ftell_result io \<noteq> - 1 \<longrightarrow>
      (\<forall>bytes. fopen_result io filename = Some bytes \<and> malloc_succeeds io \<longrightarrow>
         LoadFile io filename =
           Load (takeWhile (\<lambda>c. c \<noteq> CHR 0x00)
                   (take (min (fread_count io) (unat (ftell_result io))) bytes)) \<and>
         (\<exists>d. LoadFile io filename = Inr d)) \<and>
      (\<forall>e. LoadFile io filename = Inl e \<longrightarrow>
         e = Exception ''Failed to open file'' \<or> e = Exception ''Failed to allocate memory''))"
proof (cases "fopen_result io filename")
  case None
  then show ?thesis by (simp add: LoadFile_def)
next
  case (Some bytes)
  show ?thesis
  proof (cases "malloc_succeeds io")
    case False
    then show ?thesis using Some by (simp add: LoadFile_def Let_def)
  next
    case True
    let ?read = "min (fread_count io) (min (unat (ftell_result io)) (length bytes))"
    have step: "LoadFile io filename =
        (if unat (ftell_result io + 1) \<le> ?read then Inl MemoryFault
         else Load (takeWhile (\<lambda>c. c \<noteq> CHR 0x00) (take ?read bytes)))"
      using Some True by (simp add: LoadFile_def Let_def)
    have no_exn: "LoadFile io filename \<noteq> Inl (Exception msg)" for msg
    proof -
      obtain d where "Load (takeWhile (\<lambda>c. c \<noteq> CHR 0x00) (take ?read bytes)) = Inr d"
        using Load_total by blast
      then show ?thesis by (simp add: step)
    qed
    have sized: "LoadFile io filename =
           Load (takeWhile (\<lambda>c. c \<noteq> CHR 0x00)
                   (take (min (fread_count io) (unat (ftell_result io))) bytes)) \<and>
         (\<exists>d. LoadFile io filename = Inr d)"
      if ok: "ftell_result io \<noteq> - 1"
    proof -
      have "1 + ftell_result io \<noteq> 0" using ok by (metis add.commute eq_neg_iff_add_eq_0)
      then have "unat (1 + ftell_result io) = Suc (unat (ftell_result io))" by (rule unatSuc)
      then have suc: "unat (ftell_result io + 1) = Suc (unat (ftell_result io))"
        by (simp add: add.commute)
      have "?read \<le> unat (ftell_result io)" by simp
      then have fits: "\<not> unat (ftell_result io + 1) \<le> ?read" using suc by linarith
      have tk: "take ?read bytes = take (min (fread_count io) (unat (ftell_result io))) bytes"
        by (simp add: min_def)
      have "LoadFile io filename = Load (takeWhile (\<lambda>c. c \<noteq> CHR 0x00) (take ?read bytes))"
        unfolding step using fits by (simp only: if_False)
      then have eq: "LoadFile io filename =
           Load (takeWhile (\<lambda>c. c \<noteq> CHR 0x00)
                   (take (min (fread_count io) (unat (ftell_result io))) bytes))"
        unfolding tk .
      obtain d where "Load (takeWhile (\<lambda>c. c \<noteq> CHR 0x00)
                   (take (min (fread_count io) (unat (ftell_result io))) bytes)) = Inr d"
        using Load_total by blast
      then show ?thesis using eq by simp
    qed
    have c1: "LoadFile io filename = Inl (Exception ''Failed to open file'') \<longleftrightarrow>
                fopen_result io filename = None"
      using no_exn Some by simp
    have c2: "LoadFile io filename = Inl (Exception ''Failed to allocate memory'') \<longleftrightarrow>
                fopen_result io filename \<noteq> None \<and> \<not> malloc_succeeds io"
      using no_exn True by simp
    have c3: "\<forall>msg. LoadFile io filename = Inl (Exception msg) \<longrightarrow>
                msg = ''Failed to open file'' \<or> msg = ''Failed to allocate memory''"
      using no_exn by simp
    have c4: "(\<forall>bytes. fopen_result io filename = Some bytes \<and> malloc_succeeds io \<longrightarrow>
         LoadFile io filename =
           Load (takeWhile (\<lambda>c. c \<noteq> CHR 0x00)
                   (take (min (fread_count io) (unat (ftell_result io))) bytes)) \<and>
         (\<exists>d. LoadFile io filename = Inr d)) \<and>
      (\<forall>e. LoadFile io filename = Inl e \<longrightarrow>
         e = Exception ''Failed to open file'' \<or> e = Exception ''Failed to allocate memory'')"
      if ok: "ftell_result io \<noteq> - 1"
    proof (intro conjI allI impI)
      fix bytes' assume "fopen_result io filename = Some bytes' \<and> malloc_succeeds io"
      then have same: "bytes' = bytes" using Some by simp
      show "LoadFile io filename =
           Load (takeWhile (\<lambda>c. c \<noteq> CHR 0x00)
                   (take (min (fread_count io) (unat (ftell_result io))) bytes'))"
        unfolding same using sized [OF ok] by blast
      show "\<exists>d. LoadFile io filename = Inr d" using sized [OF ok] by blast
    next
      fix e assume inl: "LoadFile io filename = Inl e"
      obtain d where "LoadFile io filename = Inr d" using sized [OF ok] by blast
      with inl show "e = Exception ''Failed to open file'' \<or>
                     e = Exception ''Failed to allocate memory''"
        by simp
    qed
    show ?thesis using c1 c2 c3 c4 by blast
  qed
qed

theorem LoadFile_errors_witness:
  "LoadFile \<lparr>fopen_result = Map.empty, ftell_result = 0, malloc_succeeds = True, fread_count = 0\<rparr> ''f'' =
     Inl (Exception ''Failed to open file'') \<and>
   LoadFile \<lparr>fopen_result = [''f'' \<mapsto> ''ab''], ftell_result = 2, malloc_succeeds = False, fread_count = 2\<rparr> ''f'' =
     Inl (Exception ''Failed to allocate memory'') \<and>
   LoadFile \<lparr>fopen_result = [''f'' \<mapsto> ''ab''], ftell_result = 2, malloc_succeeds = True, fread_count = 1\<rparr> ''f'' =
     Load ''a''"
  using LoadFile_errors [of "\<lparr>fopen_result = Map.empty, ftell_result = 0, malloc_succeeds = True, fread_count = 0\<rparr>" "''f''"]
    LoadFile_errors [of "\<lparr>fopen_result = [''f'' \<mapsto> ''ab''], ftell_result = 2, malloc_succeeds = False, fread_count = 2\<rparr>" "''f''"]
    LoadFile_errors [of "\<lparr>fopen_result = [''f'' \<mapsto> ''ab''], ftell_result = 2, malloc_succeeds = True, fread_count = 1\<rparr>" "''f''"]
  by simp

text \<open>
  C10. Assigning an \<^verbatim>\<open>int\<close> and reading it with \<^verbatim>\<open>as_int\<close> gives the value back, for all
  \<open>2 ^ 32\<close> values; assigning a \<^verbatim>\<open>bool\<close> and reading it with \<^verbatim>\<open>as_bool\<close> gives it back; a string is
  read back by \<^verbatim>\<open>as_string\<close>. After each of the three assignments the node is of kind Scalar and
  has no children, no tag and no key.
\<close>

theorem scalar_assignment_round_trip:
  "as_int (assign_int n v) = v \<and>
   as_bool (assign_bool n b) = b \<and>
   as_string (assign_str n s) = s \<and>
   IsScalar (assign_int n v) \<and> children (assign_int n v) = [] \<and> node_tag (assign_int n v) = None \<and>
   IsScalar (assign_bool n b) \<and> children (assign_bool n b) = [] \<and> node_tag (assign_bool n b) = None \<and>
   IsScalar (assign_str n s) \<and> children (assign_str n s) = [] \<and> node_tag (assign_str n s) = None"
proof -
  have lo: "- (2 ^ 31) \<le> sint v" using sint_ge [of v] by simp
  have hi: "sint v < 2 ^ 31" using sint_lt [of v] by simp
  have "strtol (format_d (sint v)) = sint v"
    using lo hi by (simp add: strtol_def decimal_value_format_d)
  then have "as_int (assign_int n v) = word_of_int (sint v)"
    by (simp add: as_int_def atoi_def assign_int_def Let_def snprintf_d_int [OF lo hi])
  then have "as_int (assign_int n v) = v" by simp
  moreover have "as_bool (assign_bool n b) = b"
    by (simp add: as_bool_def assign_bool_def Let_def)
  moreover have "as_string (assign_str n s) = s"
    by (simp add: as_string_def assign_str_def Let_def)
  ultimately show ?thesis
    by (simp add: assign_int_def assign_bool_def assign_str_def Let_def Clear_def IsScalar_def)
qed

theorem scalar_assignment_round_trip_witness:
  "as_int (assign_int (Node Type_Map (Some ''t'') None [Node_new None] None) (- 2147483648)) = - 2147483648 \<and>
   as_bool (assign_bool (Node Type_Map (Some ''t'') None [Node_new None] None) False) = False \<and>
   children (assign_int (Node Type_Map (Some ''t'') None [Node_new None] None) (- 2147483648)) = [] \<and>
   node_tag (assign_bool (Node Type_Map (Some ''t'') None [Node_new None] None) False) = None"
  using scalar_assignment_round_trip
    [of "Node Type_Map (Some ''t'') None [Node_new None] None" "- 2147483648" False "''x''"]
  by simp

end
